theory Spec2Isabelle
  imports Main
begin

section \<open>Values, strings and objects of the sync service\<close>

text \<open>
  The development embeds \<^verbatim>\<open>src/services/sheetsToSupabaseSync.js\<close>.
  A JavaScript string is a \<^typ>\<open>string\<close>; a \<^typ>\<open>char\<close> stands for a code unit
  below 256 (the Latin-1 range), so \<^verbatim>\<open>toLowerCase\<close> and the class \<^verbatim>\<open>\s\<close> are the
  restrictions of the JavaScript ones to that range. A sheet cell is a string (the
  values API renders every cell as text); a field of a lead is a string or \<^verbatim>\<open>null\<close>.
\<close>

datatype jsval = JNull | JStr string

type_synonym row = "string list"

type_synonym fields = "string \<rightharpoonup> jsval"

text \<open>
  The object literal \<^verbatim>\<open>lead\<close> inherits from \<^verbatim>\<open>Object.prototype\<close>, whose accessor
  \<^verbatim>\<open>__proto__\<close> intercepts the assignment \<^verbatim>\<open>lead['__proto__'] = v\<close>: \<^verbatim>\<open>null\<close> detaches
  the prototype, a string is ignored, and in neither case is an own property created.
  Once the prototype is detached the assignment creates an own property like any other.
\<close>

record lead =
  protoNull :: bool
  own :: fields

definition assign :: "string \<Rightarrow> jsval \<Rightarrow> lead \<Rightarrow> lead" where
  "assign k v l =
     (if k = ''__proto__'' \<and> \<not> protoNull l
      then (case v of JNull \<Rightarrow> l\<lparr>protoNull := True\<rparr> | JStr _ \<Rightarrow> l)
      else l\<lparr>own := (own l)(k \<mapsto> v)\<rparr>)"

subsection \<open>\<^verbatim>\<open>String(rowIndex)\<close> and its inverse\<close>

definition digitChar :: "nat \<Rightarrow> char" where
  "digitChar d = char_of (48 + d)"

fun StringOf :: "nat \<Rightarrow> string" where
  "StringOf n = (if n < 10 then [digitChar n] else StringOf (n div 10) @ [digitChar (n mod 10)])"

declare StringOf.simps [simp del]

definition digitValue :: "char \<Rightarrow> nat" where
  "digitValue c = of_char c - 48"

definition NumberOf :: "string \<Rightarrow> nat" where
  "NumberOf s = foldl (\<lambda>acc c. 10 * acc + digitValue c) 0 s"

subsection \<open>Header normalisation: \<^verbatim>\<open>header.toLowerCase().replace(/\s+/g, '_')\<close>\<close>

definition toLowerCaseChar :: "char \<Rightarrow> char" where
  "toLowerCaseChar c =
     (let n = (of_char c :: nat)
      in if (65 \<le> n \<and> n \<le> 90) \<or> (192 \<le> n \<and> n \<le> 222 \<and> n \<noteq> 215)
         then char_of (n + 32) else c)"

definition toLowerCase :: "string \<Rightarrow> string" where
  "toLowerCase s = map toLowerCaseChar s"

definition isSpace :: "char \<Rightarrow> bool" where
  "isSpace c = ((of_char c :: nat) \<in> {9, 10, 11, 12, 13, 32, 160})"

text \<open>
  The global replace scans from the left; at a whitespace character the greedy
  \<^verbatim>\<open>\s+\<close> consumes the whole run and one underscore is emitted.
\<close>

function replaceSpaces :: "string \<Rightarrow> string" where
  "replaceSpaces [] = []"
| "replaceSpaces (c # cs) =
     (if isSpace c then CHR ''_'' # replaceSpaces (dropWhile isSpace cs)
      else c # replaceSpaces cs)"
  by pat_completeness auto
termination
  by (relation "measure length") (auto simp: length_dropWhile_le less_Suc_eq_le)

definition normalizeHeader :: "string \<Rightarrow> string" where
  "normalizeHeader header = replaceSpaces (toLowerCase header)"

section \<open>The environment of a pass\<close>

datatype error = Error string | TypeError string

fun message :: "error \<Rightarrow> string" where
  "message (Error m) = m"
| "message (TypeError m) = m"

text \<open>
  The two collaborators are parameters. \<open>valuesGet name s e\<close> answers the ranged read
  \<^verbatim>\<open>${name}!A${s}:Z${e}\<close> with \<^verbatim>\<open>response.data.values\<close> (\<open>None\<close> when the field is
  absent) or raises; \<open>spreadsheetGet name\<close> answers the metadata read with the title and
  \<^verbatim>\<open>gridProperties.rowCount\<close> of every tab it returns. \<open>upsert payload table\<close> is the
  store's answer to the bulk upsert on conflict key \<^verbatim>\<open>sheet_row_id\<close>: the new table, or
  the \<^verbatim>\<open>error\<close> of the response. \<open>clock n\<close> is what the \<open>n\<close>-th evaluation of
  \<^verbatim>\<open>new Date().toISOString()\<close> returns.
\<close>

record source =
  valuesGet :: "string \<Rightarrow> nat \<Rightarrow> nat \<Rightarrow> error + row list option"
  spreadsheetGet :: "string \<Rightarrow> error + (string \<times> nat) list"

record env =
  clock :: "nat \<Rightarrow> string"
  sheets :: source
  upsert :: "fields list \<Rightarrow> fields list \<Rightarrow> error + fields list"

datatype request = ValuesGet string nat nat | SpreadsheetGet string

text \<open>
  The state a pass changes: the number of clock readings taken, the network reads
  issued, the payload of every upsert call, the leads table, and the errors an
  \<^verbatim>\<open>onError\<close> function was called with.
\<close>

record world =
  ticks :: nat
  requests :: "request list"
  upserts :: "fields list list"
  leadsTable :: "fields list"
  reported :: "error list"

definition newDateISOString :: "env \<Rightarrow> world \<Rightarrow> string \<times> world" where
  "newDateISOString env w = (clock env (ticks w), w\<lparr>ticks := Suc (ticks w)\<rparr>)"

section \<open>The sync service\<close>

subsection \<open>\<^verbatim>\<open>mapSheetRowToLeadObject\<close>\<close>

definition mapColumns :: "row \<Rightarrow> row \<Rightarrow> lead \<Rightarrow> lead" where
  "mapColumns headerRow dataRow lead0 =
     foldl (\<lambda>lead (index, header).
              let fieldName = normalizeHeader header
              in if index < length dataRow
                 then assign fieldName (JStr (dataRow ! index)) lead
                 else assign fieldName JNull lead)
           lead0 (enumerate 0 headerRow)"

definition mapSheetRowToLeadObject :: "env \<Rightarrow> row \<Rightarrow> row \<Rightarrow> nat \<Rightarrow> world \<Rightarrow> lead \<times> world" where
  "mapSheetRowToLeadObject env headerRow dataRow rowIndex w =
     (let (now, w') = newDateISOString env w;
          lead0 = \<lparr>protoNull = False,
                   own = [''sheet_row_id'' \<mapsto> JStr (StringOf rowIndex),
                          ''last_sync'' \<mapsto> JStr now]\<rparr>
      in (mapColumns headerRow dataRow lead0, w'))"

subsection \<open>\<^verbatim>\<open>fetchSheetData\<close>\<close>

record sheetDatum =
  headerRow :: row
  dataRow :: row
  rowIndex :: nat

definition pushRows :: "row \<Rightarrow> nat \<Rightarrow> row list \<Rightarrow> sheetDatum list" where
  "pushRows header startRow rows =
     map (\<lambda>(actualRowIndex, r). \<lparr>headerRow = header, dataRow = r, rowIndex = actualRowIndex\<rparr>)
         (enumerate startRow rows)"

text \<open>
  The \<^verbatim>\<open>for\<close> loop. It need not end (a batch size of 0 repeats the same read for as long
  as it returns rows), so the result is optional: \<open>None\<close> is a pass that never returns.
\<close>

partial_function (option) fetchBatches ::
  "env \<Rightarrow> string \<Rightarrow> nat \<Rightarrow> row \<Rightarrow> nat \<Rightarrow> nat \<Rightarrow> sheetDatum list \<Rightarrow> world
     \<Rightarrow> ((error + sheetDatum list) \<times> world) option"
where
  "fetchBatches env name batch header totalRows startRow allData w =
     (if startRow < totalRows
      then (let endRow = min (startRow + batch - 1) totalRows;
                w' = w\<lparr>requests := requests w @ [ValuesGet name startRow endRow]\<rparr>
            in case valuesGet (sheets env) name startRow endRow of
                 Inl e \<Rightarrow> Some (Inl e, w')
               | Inr vals \<Rightarrow>
                   (let rows = (case vals of None \<Rightarrow> [] | Some rs \<Rightarrow> rs)
                    in if length rows = 0 then Some (Inr allData, w')
                       else fetchBatches env name batch header totalRows (startRow + batch)
                              (allData @ pushRows header startRow rows) w'))
      else Some (Inr allData, w))"

declare fetchBatches.simps [code]

definition fetchSheetData ::
  "env \<Rightarrow> string \<Rightarrow> nat \<Rightarrow> world \<Rightarrow> ((error + sheetDatum list) \<times> world) option"
where
  "fetchSheetData env name batch w =
     (let w1 = w\<lparr>requests := requests w @ [ValuesGet name 1 1]\<rparr>
      in case valuesGet (sheets env) name 1 1 of
           Inl e \<Rightarrow> Some (Inl e, w1)
         | Inr None \<Rightarrow> Some (Inl (TypeError ''Cannot read properties of undefined''), w1)
         | Inr (Some []) \<Rightarrow> Some (Inl (Error ''Could not find header row in sheet''), w1)
         | Inr (Some (header # _)) \<Rightarrow>
             (let w2 = w1\<lparr>requests := requests w1 @ [SpreadsheetGet name]\<rparr>
              in case spreadsheetGet (sheets env) name of
                   Inl e \<Rightarrow> Some (Inl e, w2)
                 | Inr tabs \<Rightarrow>
                     (case find (\<lambda>s. fst s = name) tabs of
                        None \<Rightarrow> Some (Inl (TypeError ''Cannot read properties of undefined''), w2)
                      | Some s \<Rightarrow> fetchBatches env name batch header (snd s) 2 [] w2)))"

subsection \<open>\<^verbatim>\<open>writeLeadsToSupabase\<close>\<close>

text \<open>The request body is the JSON of the leads: their own properties.\<close>

definition writeLeadsToSupabase :: "env \<Rightarrow> lead list \<Rightarrow> world \<Rightarrow> (error + nat) \<times> world" where
  "writeLeadsToSupabase env leads w =
     (let payload = map own leads;
          w' = w\<lparr>upserts := upserts w @ [payload]\<rparr>
      in case upsert env payload (leadsTable w') of
           Inl e \<Rightarrow> (Inl e, w')
         | Inr table \<Rightarrow> (Inr (length leads), w'\<lparr>leadsTable := table\<rparr>))"

subsection \<open>\<^verbatim>\<open>syncSheetsToSupabase\<close>\<close>

text \<open>
  The option \<^verbatim>\<open>onError\<close> is whatever the caller passes. The destructuring default
  (\<^verbatim>\<open>console.error\<close>, which returns) replaces an absent value only; any other value is
  called as it is inside the \<^verbatim>\<open>catch\<close>: a value that is not a function (\<^verbatim>\<open>null\<close>, say)
  makes the call raise a TypeError, and a function either returns or throws an error of
  its own.
\<close>

datatype handler = NotCallable | Callback "error \<Rightarrow> error option"

record options =
  sheetName :: "string option"
  batchSize :: "nat option"
  forceFullSync :: "bool option"
  onError :: "handler option"

datatype syncResult =
    SyncOk (syncStartTime: string) (syncEndTime: string) (rowsProcessed: nat)
  | SyncFailed (syncStartTime: string) (syncEndTime: string) (errorMessage: string)

fun success :: "syncResult \<Rightarrow> bool" where
  "success (SyncOk _ _ _) = True"
| "success (SyncFailed _ _ _) = False"

fun mapLeads :: "env \<Rightarrow> sheetDatum list \<Rightarrow> world \<Rightarrow> lead list \<times> world" where
  "mapLeads env [] w = ([], w)"
| "mapLeads env (d # ds) w =
     (let (l, w') = mapSheetRowToLeadObject env (headerRow d) (dataRow d) (rowIndex d) w;
          (ls, w'') = mapLeads env ds w'
      in (l # ls, w''))"

definition callOnError :: "handler option \<Rightarrow> error \<Rightarrow> world \<Rightarrow> error option \<times> world" where
  "callOnError h e w =
     (case h of
        None \<Rightarrow> (None, w\<lparr>reported := reported w @ [e]\<rparr>)
      | Some NotCallable \<Rightarrow> (Some (TypeError ''onError is not a function''), w)
      | Some (Callback f) \<Rightarrow> (f e, w\<lparr>reported := reported w @ [e]\<rparr>))"

text \<open>
  The \<^verbatim>\<open>catch\<close> block. The callback is called first and nothing guards the call: when
  it raises, the block is left with that error and the promise of
  \<^verbatim>\<open>syncSheetsToSupabase\<close> rejects (\<open>Inl\<close>); only when it returns is the failure result
  built and returned (\<open>Inr\<close>).
\<close>

definition failed ::
  "env \<Rightarrow> string \<Rightarrow> handler option \<Rightarrow> error \<Rightarrow> world \<Rightarrow> (error + syncResult) \<times> world"
where
  "failed env startTime h e w =
     (case callOnError h e w of
        (Some e', w1) \<Rightarrow> (Inl e', w1)
      | (None, w1) \<Rightarrow>
          (let (endTime, w2) = newDateISOString env w1
           in (Inr (SyncFailed startTime endTime (message e)), w2)))"

definition syncSheetsToSupabase ::
  "env \<Rightarrow> options \<Rightarrow> world \<Rightarrow> ((error + syncResult) \<times> world) option"
where
  "syncSheetsToSupabase env opts w =
     (let name = (case sheetName opts of None \<Rightarrow> ''Sheet1'' | Some n \<Rightarrow> n);
          batch = (case batchSize opts of None \<Rightarrow> 50 | Some b \<Rightarrow> b);
          force = (case forceFullSync opts of None \<Rightarrow> False | Some f \<Rightarrow> f);
          (startTime, w0) = newDateISOString env w
      in case fetchSheetData env name batch w0 of
           None \<Rightarrow> None
         | Some (Inl e, w1) \<Rightarrow> Some (failed env startTime (onError opts) e w1)
         | Some (Inr sheetData, w1) \<Rightarrow>
             (let (leads, w2) = mapLeads env sheetData w1
              in case writeLeadsToSupabase env leads w2 of
                   (Inl e, w3) \<Rightarrow> Some (failed env startTime (onError opts) e w3)
                 | (Inr count, w3) \<Rightarrow>
                     (let (endTime, w4) = newDateISOString env w3
                      in Some (Inr (SyncOk startTime endTime (length leads)), w4))))"


section \<open>A spreadsheet stub and a keyed store\<close>

text \<open>
  A stand-in for the spreadsheet service, holding one tab: the rows of the tab from
  row 1 on (the header first; a blank row is \<open>[]\<close>) and the declared row count of its
  grid. A ranged read returns the rows of the range that exist, cut to the columns A to
  Z; as the values API does, it leaves out the empty rows at the end of the range, and
  the \<^verbatim>\<open>values\<close> field altogether when nothing is left.
\<close>

record sheet =
  title :: string
  cells :: "row list"
  rowCount :: nat

definition dropTrailingEmpty :: "row list \<Rightarrow> row list" where
  "dropTrailingEmpty rs = rev (dropWhile (\<lambda>r. r = []) (rev rs))"

definition sheetSource :: "sheet \<Rightarrow> source" where
  "sheetSource sh =
     \<lparr>valuesGet = (\<lambda>name s e.
        if name = title sh
        then (let rs = dropTrailingEmpty (map (take 26) (take (e + 1 - s) (drop (s - 1) (cells sh))))
              in Inr (if rs = [] then None else Some rs))
        else Inl (Error ''Unable to parse range'')),
      spreadsheetGet = (\<lambda>name.
        if name = title sh then Inr [(title sh, rowCount sh)]
        else Inl (Error ''Unable to parse range''))\<rparr>"

text \<open>
  Modelled from the spec: the record store is an external service, absent from the
  sources. Glossary: "Upsert: insert-or-update keyed by a declared unique column";
  data model: on a conflict the fields of the submitted record overwrite the stored
  ones, and "previously-populated fields for unseen headers are left untouched".
\<close>

definition rowKey :: "fields \<Rightarrow> jsval option" where
  "rowKey r = r ''sheet_row_id''"

fun upsertRow :: "fields \<Rightarrow> fields list \<Rightarrow> fields list" where
  "upsertRow r [] = [r]"
| "upsertRow r (t # ts) = (if rowKey t = rowKey r then (t ++ r) # ts else t # upsertRow r ts)"

definition keyedUpsert :: "fields list \<Rightarrow> fields list \<Rightarrow> error + fields list" where
  "keyedUpsert payload table = Inr (foldl (\<lambda>t r. upsertRow r t) table payload)"

section \<open>Fixtures\<close>

text \<open>
  Concrete inputs for evaluating the service: a clock whose readings all differ, the
  sheet of the specification's example, an environment over the stub source and the
  keyed store, and a world in which nothing has happened yet.
\<close>

definition stubClock :: "nat \<Rightarrow> string" where
  "stubClock n = ''2024-01-01T00:00:00.00'' @ StringOf n @ ''Z''"

definition emptyWorld :: world where
  "emptyWorld = \<lparr>ticks = 0, requests = [], upserts = [], leadsTable = [], reported = []\<rparr>"

definition exampleSheet :: sheet where
  "exampleSheet =
     \<lparr>title = ''Sheet1'',
      cells = [[''Name'', ''Email''], [''Alice'', ''a@x.com''], [''Bob'', ''b@x.com'']],
      rowCount = 3\<rparr>"

text \<open>The example sheet in a grid of 1000 rows, and a sheet with a blank row between two data rows.\<close>

definition paddedSheet :: sheet where
  "paddedSheet = exampleSheet\<lparr>rowCount := 1000\<rparr>"

definition gapSheet :: sheet where
  "gapSheet = \<lparr>title = ''Sheet1'', cells = [[''Name''], [''Alice''], [], [''Bob'']], rowCount = 1000\<rparr>"

text \<open>A sheet with a column named like the identifier field.\<close>

definition shadowSheet :: sheet where
  "shadowSheet = \<lparr>title = ''Sheet1'', cells = [[''Sheet Row ID''], [''7''], [''7'']], rowCount = 4\<rparr>"

definition stubEnv :: "sheet \<Rightarrow> env" where
  "stubEnv sh = \<lparr>clock = stubClock, sheets = sheetSource sh, upsert = keyedUpsert\<rparr>"




text \<open>Observers of a run: the payloads a pass submitted, and a record without its timestamp.\<close>

definition newPayloads :: "world \<Rightarrow> world \<Rightarrow> fields list list" where
  "newPayloads w w' = drop (length (upserts w)) (upserts w')"

definition payloadsOf :: "((error + syncResult) \<times> world) option \<Rightarrow> fields list list" where
  "payloadsOf x = (case x of None \<Rightarrow> [] | Some (r, w) \<Rightarrow> upserts w)"

definition requestsOf :: "((error + syncResult) \<times> world) option \<Rightarrow> request list" where
  "requestsOf x = (case x of None \<Rightarrow> [] | Some (r, w) \<Rightarrow> requests w)"

definition rowNumber :: "fields \<Rightarrow> nat option" where
  "rowNumber f = (case f ''sheet_row_id'' of Some (JStr s) \<Rightarrow> Some (NumberOf s) | _ \<Rightarrow> None)"

definition rowsProcessedOf :: "((error + syncResult) \<times> world) option \<Rightarrow> nat option" where
  "rowsProcessedOf x = (case x of Some (Inr r, w) \<Rightarrow> Some (rowsProcessed r) | _ \<Rightarrow> None)"

definition resultOf :: "((error + syncResult) \<times> world) option \<Rightarrow> (error + syncResult) option" where
  "resultOf x = map_option fst x"

definition column :: "string \<Rightarrow> fields list \<Rightarrow> jsval option list" where
  "column k p = map (\<lambda>f. f k) p"

definition forgetLastSync :: "fields \<Rightarrow> fields" where
  "forgetLastSync f = f(''last_sync'' := None)"

text \<open>
  Observers of the store against the sheet. A record holds row \<open>n\<close> of the sheet when
  its identifier is the decimal string of \<open>n\<close> and, under the normalized name of every
  header cell that no later cell repeats, it has the cell of the row in that column, or
  \<^verbatim>\<open>null\<close> where the row is shorter. A sheet is plain for a tab name when it is that
  tab, has a header, has no blank row, has a grid larger than its rows, and no header
  cell in the columns A to Z normalizes to \<^verbatim>\<open>sheet_row_id\<close> or \<^verbatim>\<open>__proto__\<close>.
\<close>

definition holdsRow :: "row \<Rightarrow> row \<Rightarrow> nat \<Rightarrow> fields \<Rightarrow> bool" where
  "holdsRow H R n f =
     (f ''sheet_row_id'' = Some (JStr (StringOf n)) \<and>
      (\<forall>j<length H.
         normalizeHeader (H ! j) \<notin> normalizeHeader ` set (drop (Suc j) H) \<longrightarrow>
         f (normalizeHeader (H ! j)) = Some (if j < length R then JStr (R ! j) else JNull)))"

definition plainSheet :: "string \<Rightarrow> sheet \<Rightarrow> bool" where
  "plainSheet name sh =
     (title sh = name \<and> cells sh \<noteq> [] \<and> (\<forall>r\<in>set (cells sh). r \<noteq> []) \<and>
      length (cells sh) < rowCount sh \<and>
      ''sheet_row_id'' \<notin> normalizeHeader ` set (take 26 (hd (cells sh))) \<and>
      ''__proto__'' \<notin> normalizeHeader ` set (take 26 (hd (cells sh))))"

section \<open>Header normalisation\<close>

lemma of_char_lt_256: "(of_char c :: nat) < 256"
  using char_of_quasi_inj [of "of_char c :: nat" "of_char c mod 256 :: nat"]
  by (metis of_char_mod_256 mod_less_divisor zero_less_numeral)

lemma of_char_toLowerCaseChar:
  "(of_char (toLowerCaseChar c) :: nat) =
     (let n = of_char c in if (65 \<le> n \<and> n \<le> 90) \<or> (192 \<le> n \<and> n \<le> 222 \<and> n \<noteq> 215) then n + 32 else n)"
  using of_char_lt_256 [of c]
  by (simp add: toLowerCaseChar_def Let_def)

lemma isSpace_toLowerCaseChar: "isSpace (toLowerCaseChar c) = isSpace c"
  unfolding isSpace_def of_char_toLowerCaseChar Let_def by auto

lemma toLowerCaseChar_idem: "toLowerCaseChar (toLowerCaseChar c) = toLowerCaseChar c"
proof -
  have "(of_char (toLowerCaseChar (toLowerCaseChar c)) :: nat) = of_char (toLowerCaseChar c)"
    unfolding of_char_toLowerCaseChar [of "toLowerCaseChar c"]
    unfolding of_char_toLowerCaseChar [of c] Let_def by auto
  then show ?thesis by (simp only: of_char_eq_iff)
qed

lemma not_isSpace_underscore: "\<not> isSpace CHR ''_''"
  by (simp add: isSpace_def)

lemma toLowerCaseChar_underscore: "toLowerCaseChar CHR ''_'' = CHR ''_''"
  by (simp add: toLowerCaseChar_def)

lemma replaceSpaces_no_space: "\<forall>c\<in>set s. \<not> isSpace c \<Longrightarrow> replaceSpaces s = s"
  by (induction s) auto

lemma replaceSpaces_range:
  "c \<in> set (replaceSpaces s) \<Longrightarrow> \<not> isSpace c \<and> (c = CHR ''_'' \<or> c \<in> set s)"
proof (induction s arbitrary: c rule: replaceSpaces.induct)
  case 1
  then show ?case by simp
next
  case (2 d ds)
  show ?case
  proof (cases "isSpace d")
    case True
    with 2 show ?thesis
      by (auto simp: not_isSpace_underscore dest: set_dropWhileD)
  next
    case False
    with 2 show ?thesis by auto
  qed
qed

lemma replaceSpaces_append:
  "x = [] \<or> \<not> isSpace (last x) \<Longrightarrow> replaceSpaces (x @ z) = replaceSpaces x @ replaceSpaces z"
proof (induction x rule: replaceSpaces.induct)
  case 1
  then show ?case by simp
next
  case (2 c cs)
  show ?case
  proof (cases "isSpace c")
    case True
    with 2 have cs: "cs \<noteq> []" "\<not> isSpace (last cs)" by (auto split: if_splits)
    then have mem: "last cs \<in> set cs" by simp
    have dw: "dropWhile isSpace (cs @ z) = dropWhile isSpace cs @ z"
      using mem cs(2) by (rule dropWhile_append1)
    have ne: "dropWhile isSpace cs \<noteq> []"
      using mem cs(2) by (auto simp: dropWhile_eq_Nil_conv)
    have "last (dropWhile isSpace cs) = last cs"
      using ne by (metis last_appendR takeWhile_dropWhile_id)
    with 2(1) [OF True] cs ne True dw show ?thesis by simp
  next
    case False
    with 2 show ?thesis by (auto split: if_splits)
  qed
qed

lemma replaceSpaces_run:
  assumes "ws \<noteq> []" "\<forall>c\<in>set ws. isSpace c" "y = [] \<or> \<not> isSpace (hd y)"
  shows "replaceSpaces (ws @ y) = CHR ''_'' # replaceSpaces y"
proof -
  obtain c cs where ws: "ws = c # cs" using assms(1) by (cases ws) auto
  have "dropWhile isSpace (cs @ y) = dropWhile isSpace y"
    using assms(2) ws by (simp add: dropWhile_append2)
  also have "\<dots> = y" using assms(3) by (cases y) auto
  finally show ?thesis using ws assms(2) by simp
qed

text \<open>
  Claim C7. Normalisation lowercases a header cell and replaces whitespace runs by one
  underscore each: a cell without whitespace is just lowercased; a whitespace run
  standing between two non-whitespace characters contributes exactly one underscore
  between the normalised parts; the result holds no whitespace and no character that
  lowercasing would change; and \<^verbatim>\<open>"Full Name"\<close> becomes \<^verbatim>\<open>full_name\<close>.
\<close>

theorem normalizeHeader_lowercase_underscore:
  "((\<forall>c\<in>set h. \<not> isSpace c) \<longrightarrow> normalizeHeader h = toLowerCase h) \<and>
   (x \<noteq> [] \<and> \<not> isSpace (last x) \<and> ws \<noteq> [] \<and> (\<forall>c\<in>set ws. isSpace c) \<and> y \<noteq> [] \<and> \<not> isSpace (hd y)
      \<longrightarrow> normalizeHeader (x @ ws @ y) = normalizeHeader x @ ''_'' @ normalizeHeader y) \<and>
   (\<forall>c\<in>set (normalizeHeader h). \<not> isSpace c \<and> toLowerCaseChar c = c) \<and>
   normalizeHeader ''Full Name'' = ''full_name''"
proof (intro conjI impI ballI)
  assume "\<forall>c\<in>set h. \<not> isSpace c"
  then show "normalizeHeader h = toLowerCase h"
    by (simp add: normalizeHeader_def toLowerCase_def replaceSpaces_no_space isSpace_toLowerCaseChar)
next
  assume a: "x \<noteq> [] \<and> \<not> isSpace (last x) \<and> ws \<noteq> [] \<and> (\<forall>c\<in>set ws. isSpace c) \<and> y \<noteq> [] \<and> \<not> isSpace (hd y)"
  let ?l = "map toLowerCaseChar"
  have 1: "replaceSpaces (?l x @ (?l ws @ ?l y)) = replaceSpaces (?l x) @ replaceSpaces (?l ws @ ?l y)"
    using a by (intro replaceSpaces_append) (simp add: last_map isSpace_toLowerCaseChar)
  have 2: "replaceSpaces (?l ws @ ?l y) = CHR ''_'' # replaceSpaces (?l y)"
    using a by (intro replaceSpaces_run) (simp_all add: hd_map isSpace_toLowerCaseChar)
  show "normalizeHeader (x @ ws @ y) = normalizeHeader x @ ''_'' @ normalizeHeader y"
    using 1 2 by (simp add: normalizeHeader_def toLowerCase_def)
next
  fix c assume "c \<in> set (normalizeHeader h)"
  then have "\<not> isSpace c \<and> (c = CHR ''_'' \<or> c \<in> set (toLowerCase h))"
    unfolding normalizeHeader_def by (rule replaceSpaces_range)
  then show "\<not> isSpace c"  "toLowerCaseChar c = c"
    by (auto simp: toLowerCase_def toLowerCaseChar_idem toLowerCaseChar_underscore)
next
  show "normalizeHeader ''Full Name'' = ''full_name''"
    by code_simp
qed

theorem normalizeHeader_lowercase_underscore_witness:
  "filter isSpace ''Name'' = [] \<and> normalizeHeader ''Name'' = toLowerCase ''Name'' \<and>
   ''Full'' \<noteq> [] \<and> \<not> isSpace (last ''Full'') \<and> ''  '' \<noteq> [] \<and> filter isSpace ''  '' = ''  '' \<and>
   ''Name'' \<noteq> [] \<and> \<not> isSpace (hd ''Name'') \<and>
   normalizeHeader (''Full'' @ ''  '' @ ''Name'') = normalizeHeader ''Full'' @ ''_'' @ normalizeHeader ''Name'' \<and>
   filter isSpace (normalizeHeader ''Name'') = [] \<and>
   map toLowerCaseChar (normalizeHeader ''Name'') = normalizeHeader ''Name''"
proof -
  have h1: "\<forall>c\<in>set ''Name''. \<not> isSpace c" by (simp add: isSpace_def)
  have h2: "''Full'' \<noteq> [] \<and> \<not> isSpace (last ''Full'') \<and> ''  '' \<noteq> [] \<and> (\<forall>c\<in>set ''  ''. isSpace c) \<and>
   ''Name'' \<noteq> [] \<and> \<not> isSpace (hd ''Name'')" by (simp add: isSpace_def)
  note t = normalizeHeader_lowercase_underscore [of "''Name''" "''Full''" "''  ''" "''Name''"]
  from t h1 have a: "normalizeHeader ''Name'' = toLowerCase ''Name''" by blast
  from t h2 have b: "normalizeHeader (''Full'' @ ''  '' @ ''Name'') =
      normalizeHeader ''Full'' @ ''_'' @ normalizeHeader ''Name''" by blast
  from t have c: "\<forall>c\<in>set (normalizeHeader ''Name''). \<not> isSpace c \<and> toLowerCaseChar c = c" by blast
  have c1: "filter isSpace (normalizeHeader ''Name'') = []"
    using c by (simp add: filter_empty_conv)
  have c2: "map toLowerCaseChar (normalizeHeader ''Name'') = normalizeHeader ''Name''"
    using c by (simp add: map_idI)
  have h1': "filter isSpace ''Name'' = []" using h1 by (simp add: filter_empty_conv)
  have h2': "filter isSpace ''  '' = ''  ''" by (simp add: isSpace_def)
  from h2 h1' h2' a b c1 c2 show ?thesis by blast
qed

section \<open>Mapping a row\<close>

lemma enumerate_snoc: "enumerate n (xs @ [x]) = enumerate n xs @ [(n + length xs, x)]"
  by (simp add: enumerate_eq_zip)

lemma mapColumns_Nil: "mapColumns [] R l = l"
  by (simp add: mapColumns_def)

lemma mapColumns_snoc:
  "mapColumns (H @ [h]) R l =
     assign (normalizeHeader h) (if length H < length R then JStr (R ! length H) else JNull)
       (mapColumns H R l)"
  by (simp add: mapColumns_def enumerate_snoc Let_def)

lemma own_assign_other: "k \<noteq> k' \<Longrightarrow> own (assign k' v l) k = own l k"
  by (simp add: assign_def split: jsval.splits)

lemma own_assign_same: "k \<noteq> ''__proto__'' \<Longrightarrow> own (assign k v l) k = Some v"
  by (simp add: assign_def)

lemma dom_assign: "k \<noteq> ''__proto__'' \<Longrightarrow> dom (own (assign k v l)) = insert k (dom (own l))"
  by (simp add: assign_def)

lemma own_mapColumns_other:
  "k \<notin> normalizeHeader ` set H \<Longrightarrow> own (mapColumns H R l) k = own l k"
  by (induction H rule: rev_induct) (auto simp: mapColumns_Nil mapColumns_snoc own_assign_other)

lemma dom_mapColumns:
  "\<forall>h\<in>set H. normalizeHeader h \<noteq> ''__proto__'' \<Longrightarrow>
   dom (own (mapColumns H R l)) = dom (own l) \<union> normalizeHeader ` set H"
  by (induction H rule: rev_induct) (auto simp: mapColumns_Nil mapColumns_snoc dom_assign)

lemma own_mapColumns_last:
  assumes "i < length H" "normalizeHeader (H ! i) \<noteq> ''__proto__''"
    and "normalizeHeader (H ! i) \<notin> normalizeHeader ` set (drop (Suc i) H)"
  shows "own (mapColumns H R l) (normalizeHeader (H ! i)) =
           Some (if i < length R then JStr (R ! i) else JNull)"
  using assms
proof (induction H rule: rev_induct)
  case Nil
  then show ?case by simp
next
  case (snoc h H)
  show ?case
  proof (cases "i = length H")
    case True
    with snoc.prems show ?thesis
      by (simp add: mapColumns_snoc own_assign_same)
  next
    case False
    with snoc.prems have i: "i < length H" by simp
    with snoc.prems have ne: "normalizeHeader h \<noteq> normalizeHeader (H ! i)"
      and later: "normalizeHeader (H ! i) \<notin> normalizeHeader ` set (drop (Suc i) H)"
      by (auto simp: nth_append)
    have "own (mapColumns H R l) (normalizeHeader (H ! i)) =
           Some (if i < length R then JStr (R ! i) else JNull)"
      using snoc.IH i snoc.prems(2) later by (simp add: nth_append)
    with i ne show ?thesis
      by (simp add: mapColumns_snoc nth_append own_assign_other)
  qed
qed

lemma fst_mapSheetRowToLeadObject:
  "fst (mapSheetRowToLeadObject env H R n w) =
     mapColumns H R \<lparr>protoNull = False,
        own = [''sheet_row_id'' \<mapsto> JStr (StringOf n), ''last_sync'' \<mapsto> JStr (clock env (ticks w))]\<rparr>"
  by (simp add: mapSheetRowToLeadObject_def newDateISOString_def)

lemma snd_mapSheetRowToLeadObject:
  "snd (mapSheetRowToLeadObject env H R n w) = w\<lparr>ticks := Suc (ticks w)\<rparr>"
  by (simp add: mapSheetRowToLeadObject_def newDateISOString_def)

text \<open>
  Claim C6 (as amended). For a header row none of whose cells normalises to
  \<^verbatim>\<open>__proto__\<close>, and any data row, the keys of the mapped record are exactly the
  normalised header names together with \<^verbatim>\<open>sheet_row_id\<close> and \<^verbatim>\<open>last_sync\<close>, and the
  key of header position \<open>i\<close> holds the cell at position \<open>i\<close> of the data row, or
  \<^verbatim>\<open>null\<close> at and beyond its length, provided no later header cell normalises to the
  same name (the last of several equal names wins).
\<close>

theorem mapSheetRowToLeadObject_fields:
  assumes "\<forall>h\<in>set H. normalizeHeader h \<noteq> ''__proto__''"
  shows "dom (own (fst (mapSheetRowToLeadObject env H R n w))) =
           normalizeHeader ` set H \<union> {''sheet_row_id'', ''last_sync''} \<and>
         (\<forall>i<length H.
            normalizeHeader (H ! i) \<notin> normalizeHeader ` set (drop (Suc i) H) \<longrightarrow>
            own (fst (mapSheetRowToLeadObject env H R n w)) (normalizeHeader (H ! i)) =
              Some (if i < length R then JStr (R ! i) else JNull))"
proof (intro conjI allI impI)
  show "dom (own (fst (mapSheetRowToLeadObject env H R n w))) =
           normalizeHeader ` set H \<union> {''sheet_row_id'', ''last_sync''}"
    using assms by (auto simp: fst_mapSheetRowToLeadObject dom_mapColumns)
next
  fix i
  assume "i < length H"
    and "normalizeHeader (H ! i) \<notin> normalizeHeader ` set (drop (Suc i) H)"
  then show "own (fst (mapSheetRowToLeadObject env H R n w)) (normalizeHeader (H ! i)) =
              Some (if i < length R then JStr (R ! i) else JNull)"
    using assms unfolding fst_mapSheetRowToLeadObject
    by (intro own_mapColumns_last) auto
qed

text \<open>
  The claim as stated fails for two header cells with one normalised name (the first
  position does not hold its own cell) and for the header \<^verbatim>\<open>__proto__\<close> (no key).
\<close>

theorem mapSheetRowToLeadObject_fields_counterexample:
  "length [''1'', ''2''] \<le> length [''A'', ''a''] \<and>
   own (fst (mapSheetRowToLeadObject (stubEnv exampleSheet) [''A'', ''a''] [''1'', ''2''] 2 emptyWorld))
       (normalizeHeader ([''A'', ''a''] ! 0)) \<noteq> Some (JStr ([''1'', ''2''] ! 0)) \<and>
   length [''x''] \<le> length [''__proto__''] \<and>
   normalizeHeader ([''__proto__''] ! 0)
     \<notin> dom (own (fst (mapSheetRowToLeadObject (stubEnv exampleSheet) [''__proto__''] [''x''] 2 emptyWorld)))"
  by code_simp

theorem mapSheetRowToLeadObject_fields_witness:
  "normalizeHeader ''Name'' \<noteq> ''__proto__'' \<and> normalizeHeader ''Email'' \<noteq> ''__proto__'' \<and>
   dom (own (fst (mapSheetRowToLeadObject (stubEnv exampleSheet) [''Name'', ''Email''] [''Alice''] 2 emptyWorld)))
     = {''name'', ''email'', ''sheet_row_id'', ''last_sync''} \<and>
   own (fst (mapSheetRowToLeadObject (stubEnv exampleSheet) [''Name'', ''Email''] [''Alice''] 2 emptyWorld))
     ''name'' = Some (JStr ''Alice'') \<and>
   own (fst (mapSheetRowToLeadObject (stubEnv exampleSheet) [''Name'', ''Email''] [''Alice''] 2 emptyWorld))
     ''email'' = Some JNull"
proof -
  have n: "normalizeHeader ''Name'' = ''name''" "normalizeHeader ''Email'' = ''email''"
    by code_simp+
  have h: "\<forall>h\<in>set [''Name'', ''Email'']. normalizeHeader h \<noteq> ''__proto__''"
    by (simp add: n)
  note t = mapSheetRowToLeadObject_fields [OF h, of "stubEnv exampleSheet" "[''Alice'']" 2 emptyWorld]
  from t have d: "dom (own (fst (mapSheetRowToLeadObject (stubEnv exampleSheet) [''Name'', ''Email''] [''Alice''] 2 emptyWorld)))
     = {''name'', ''email'', ''sheet_row_id'', ''last_sync''}"
    by (simp add: n insert_commute)
  from t [THEN conjunct2, rule_format, of 0] have a: "own (fst (mapSheetRowToLeadObject (stubEnv exampleSheet) [''Name'', ''Email''] [''Alice''] 2 emptyWorld))
     ''name'' = Some (JStr ''Alice'')"
    by (simp add: n)
  from t [THEN conjunct2, rule_format, of 1] have b: "own (fst (mapSheetRowToLeadObject (stubEnv exampleSheet) [''Name'', ''Email''] [''Alice''] 2 emptyWorld))
     ''email'' = Some JNull"
    by (simp add: n)
  from h d a b show ?thesis by simp
qed

section \<open>The fetch loop\<close>

lemma set_pushRows:
  "d \<in> set (pushRows header start rows) \<Longrightarrow>
     headerRow d = header \<and> start \<le> rowIndex d \<and> rowIndex d < start + length rows"
  by (auto simp: pushRows_def enumerate_eq_zip in_set_zip)

lemma rowIndex_pushRows: "map rowIndex (pushRows header start rows) = [start..<start + length rows]"
proof -
  have "map rowIndex (pushRows header start rows) = map fst (enumerate start rows)"
    by (simp add: pushRows_def case_prod_unfold o_def)
  then show ?thesis by (simp add: enumerate_eq_zip)
qed

lemma length_pushRows: "length (pushRows header start rows) = length rows"
  by (simp add: pushRows_def)

lemmas fetchBatches_induct = fetchBatches.raw_induct [rotated 1, consumes 1, case_names step]

lemma fetchBatches_frame:
  assumes "fetchBatches env name batch header tot start acc w = Some y"
  shows "ticks (snd y) = ticks w \<and> upserts (snd y) = upserts w \<and>
     leadsTable (snd y) = leadsTable w \<and> reported (snd y) = reported w"
  using assms
proof (induct env name batch header tot start acc w y rule: fetchBatches_induct)
  case (step fetchBatches env name batch header totalRows startRow allData w y)
  from step(2) show ?case
    by (auto simp: Let_def split: if_splits sum.splits dest!: step(1))
qed

lemma fetchBatches_data:
  assumes "fetchBatches env name batch header tot start acc w = Some y"
  shows "fst y = Inr data \<Longrightarrow>
     \<exists>more. data = acc @ more \<and> (\<forall>d\<in>set more. headerRow d = header \<and> start \<le> rowIndex d)"
  using assms
proof (induct env name batch header tot start acc w y arbitrary: data rule: fetchBatches_induct)
  case (step fetchBatches env name batch header totalRows startRow allData w y)
  show ?case
  proof (cases "startRow < totalRows")
    case False
    with step(2) step(3) show ?thesis by auto
  next
    case True
    let ?e = "min (startRow + batch - 1) totalRows"
    show ?thesis
    proof (cases "valuesGet (sheets env) name startRow ?e")
      case (Inl e)
      with True step(2) step(3) show ?thesis by (auto simp: Let_def)
    next
      case (Inr vals)
      let ?rows = "case vals of None \<Rightarrow> [] | Some rs \<Rightarrow> rs"
      show ?thesis
      proof (cases "?rows = []")
        case True
        with \<open>startRow < totalRows\<close> Inr step(2) step(3) show ?thesis by (auto simp: Let_def)
      next
        case False
        with \<open>startRow < totalRows\<close> Inr step(2)
        have rec: "fetchBatches env name batch header totalRows (startRow + batch)
                (allData @ pushRows header startRow ?rows)
                (w\<lparr>requests := requests w @ [ValuesGet name startRow ?e]\<rparr>) = Some y"
          by (simp add: Let_def)
        from step(1) [OF rec step(3)] obtain more where
          more: "data = (allData @ pushRows header startRow ?rows) @ more"
            "\<forall>d\<in>set more. headerRow d = header \<and> startRow + batch \<le> rowIndex d" by blast
        show ?thesis
        proof (intro exI conjI ballI)
          show "data = allData @ (pushRows header startRow ?rows @ more)" using more(1) by simp
        next
          fix d assume "d \<in> set (pushRows header startRow ?rows @ more)"
          then show "headerRow d = header" "startRow \<le> rowIndex d"
            using more(2) by (auto dest: set_pushRows)
        qed
      qed
    qed
  qed
qed


lemma fetchBatches_stop:
  "\<not> start < tot \<Longrightarrow> fetchBatches env name batch header tot start acc w = Some (Inr acc, w)"
  by (subst fetchBatches.simps) simp

lemma fetchBatches_raise:
  "start < tot \<Longrightarrow> valuesGet (sheets env) name start (min (start + batch - 1) tot) = Inl e \<Longrightarrow>
   fetchBatches env name batch header tot start acc w =
     Some (Inl e, w\<lparr>requests := requests w @ [ValuesGet name start (min (start + batch - 1) tot)]\<rparr>)"
  by (subst fetchBatches.simps) (simp add: Let_def)

lemma fetchBatches_break:
  "start < tot \<Longrightarrow> valuesGet (sheets env) name start (min (start + batch - 1) tot) = Inr vals \<Longrightarrow>
   (case vals of None \<Rightarrow> [] | Some rs \<Rightarrow> rs) = [] \<Longrightarrow>
   fetchBatches env name batch header tot start acc w =
     Some (Inr acc, w\<lparr>requests := requests w @ [ValuesGet name start (min (start + batch - 1) tot)]\<rparr>)"
  by (subst fetchBatches.simps) (simp add: Let_def)

lemma fetchBatches_next:
  "start < tot \<Longrightarrow> valuesGet (sheets env) name start (min (start + batch - 1) tot) = Inr vals \<Longrightarrow>
   (case vals of None \<Rightarrow> [] | Some rs \<Rightarrow> rs) \<noteq> [] \<Longrightarrow>
   fetchBatches env name batch header tot start acc w =
     fetchBatches env name batch header tot (start + batch)
       (acc @ pushRows header start (case vals of None \<Rightarrow> [] | Some rs \<Rightarrow> rs))
       (w\<lparr>requests := requests w @ [ValuesGet name start (min (start + batch - 1) tot)]\<rparr>)"
  by (subst fetchBatches.simps) (simp add: Let_def)

lemma width_rows:
  assumes "\<forall>s e rs. valuesGet src name s e = Inr (Some rs) \<longrightarrow> length rs \<le> e + 1 - s"
    and "valuesGet src name start (min (start + batch - 1) tot) = Inr vals"
    and "0 < start"
  shows "length (case vals of None \<Rightarrow> [] | Some rs \<Rightarrow> rs) \<le> batch"
proof (cases vals)
  case None
  then show ?thesis by simp
next
  case (Some rs)
  with assms have "length rs \<le> min (start + batch - 1) tot + 1 - start" by blast
  also have "\<dots> \<le> batch" using assms(3) by (cases batch) auto
  finally show ?thesis using Some by simp
qed

lemma fetchBatches_returns:
  assumes "0 < batch \<or>
           (\<forall>s e rs. valuesGet (sheets env) name s e = Inr (Some rs) \<longrightarrow> length rs \<le> e + 1 - s)"
    and "0 < start"
  shows "\<exists>res reqs. \<forall>w. fetchBatches env name batch header tot start acc w =
                          Some (res, w\<lparr>requests := requests w @ reqs\<rparr>)"
  using assms(2)
proof (induction "tot - start" arbitrary: start acc rule: less_induct)
  case less
  show ?case
  proof (cases "start < tot")
    case False
    then have "\<forall>w. fetchBatches env name batch header tot start acc w =
                 Some (Inr acc, w\<lparr>requests := requests w @ []\<rparr>)"
      by (simp add: fetchBatches_stop)
    then show ?thesis by blast
  next
    case True
    let ?e = "min (start + batch - 1) tot"
    let ?q = "ValuesGet name start ?e"
    show ?thesis
    proof (cases "valuesGet (sheets env) name start ?e")
      case (Inl e)
      with True have "\<forall>w. fetchBatches env name batch header tot start acc w =
                 Some (Inl e, w\<lparr>requests := requests w @ [?q]\<rparr>)"
        by (simp add: fetchBatches_raise)
      then show ?thesis by blast
    next
      case (Inr vals)
      let ?rows = "case vals of None \<Rightarrow> [] | Some rs \<Rightarrow> rs"
      show ?thesis
      proof (cases "?rows = []")
        case True
        with \<open>start < tot\<close> Inr have "\<forall>w. fetchBatches env name batch header tot start acc w =
                 Some (Inr acc, w\<lparr>requests := requests w @ [?q]\<rparr>)"
          by (simp add: fetchBatches_break)
        then show ?thesis by blast
      next
        case False
        have pos: "0 < batch"
        proof (rule ccontr)
          assume "\<not> 0 < batch"
          with assms(1) Inr less.prems have "length ?rows \<le> batch" by (intro width_rows) auto
          with \<open>\<not> 0 < batch\<close> False show False by simp
        qed
        with \<open>start < tot\<close> have "tot - (start + batch) < tot - start" by simp
        moreover have "0 < start + batch" using pos by simp
        ultimately obtain res reqs where
          rec: "\<forall>w. fetchBatches env name batch header tot (start + batch)
                  (acc @ pushRows header start ?rows) w = Some (res, w\<lparr>requests := requests w @ reqs\<rparr>)"
          using less.hyps by blast
        have "\<forall>w. fetchBatches env name batch header tot start acc w =
                 Some (res, w\<lparr>requests := requests w @ (?q # reqs)\<rparr>)"
          using \<open>start < tot\<close> Inr False rec by (simp add: fetchBatches_next)
        then show ?thesis by blast
      qed
    qed
  qed
qed

lemma sorted_upt_append:
  assumes "sorted_wrt (<) ns" "\<forall>n\<in>set ns. a + k \<le> n"
  shows "sorted_wrt (<) ([a..<a + k] @ (ns :: nat list))"
  using assms by (auto simp: sorted_wrt_append)

lemma fetchBatches_ascending:
  assumes "fetchBatches env name batch header tot start acc w = Some y"
    and "\<forall>s e rs. valuesGet (sheets env) name s e = Inr (Some rs) \<longrightarrow> length rs \<le> e + 1 - s"
    and "0 < start"
  shows "fst y = Inr data \<Longrightarrow>
     \<exists>more. data = acc @ more \<and> sorted_wrt (<) (map rowIndex more) \<and>
            (\<forall>d\<in>set more. start \<le> rowIndex d)"
  using assms
proof (induct env name batch header tot start acc w y arbitrary: data rule: fetchBatches_induct)
  case (step fetchBatches env name batch header totalRows startRow allData w y)
  show ?case
  proof (cases "startRow < totalRows")
    case False
    with step(2) step(3) show ?thesis by auto
  next
    case True
    let ?e = "min (startRow + batch - 1) totalRows"
    show ?thesis
    proof (cases "valuesGet (sheets env) name startRow ?e")
      case (Inl e)
      with True step(2) step(3) show ?thesis by (auto simp: Let_def)
    next
      case (Inr vals)
      let ?rows = "case vals of None \<Rightarrow> [] | Some rs \<Rightarrow> rs"
      show ?thesis
      proof (cases "?rows = []")
        case True
        with \<open>startRow < totalRows\<close> Inr step(2) step(3) show ?thesis by (auto simp: Let_def)
      next
        case False
        with \<open>startRow < totalRows\<close> Inr step(2)
        have rec: "fetchBatches env name batch header totalRows (startRow + batch)
                (allData @ pushRows header startRow ?rows)
                (w\<lparr>requests := requests w @ [ValuesGet name startRow ?e]\<rparr>) = Some y"
          by (simp add: Let_def)
        from step(5) have "0 < startRow + batch" by simp
        from step(1) [OF rec step(3) step(4) this] obtain more where
          more: "data = (allData @ pushRows header startRow ?rows) @ more"
            "sorted_wrt (<) (map rowIndex more)"
            "\<forall>d\<in>set more. startRow + batch \<le> rowIndex d" by blast
        have len: "length ?rows \<le> batch"
          using step(4) Inr step(5) by (rule width_rows)
        have "sorted_wrt (<) ([startRow..<startRow + length ?rows] @ map rowIndex more)"
          using more(2,3) len by (intro sorted_upt_append) auto
        then have srt: "sorted_wrt (<) (map rowIndex (pushRows header startRow ?rows @ more))"
          by (simp add: rowIndex_pushRows)
        show ?thesis
        proof (intro exI conjI ballI)
          show "data = allData @ (pushRows header startRow ?rows @ more)" using more(1) by simp
          show "sorted_wrt (<) (map rowIndex (pushRows header startRow ?rows @ more))" by (rule srt)
        next
          fix d assume "d \<in> set (pushRows header startRow ?rows @ more)"
          then show "startRow \<le> rowIndex d"
            using more(3) by (auto dest: set_pushRows)
        qed
      qed
    qed
  qed
qed

section \<open>Fetching and mapping a whole sheet\<close>

lemma fetchSheetData_frame:
  assumes "fetchSheetData env name batch w = Some y"
  shows "ticks (snd y) = ticks w \<and> upserts (snd y) = upserts w \<and>
     leadsTable (snd y) = leadsTable w \<and> reported (snd y) = reported w"
  using assms
  by (auto simp: fetchSheetData_def Let_def split: sum.splits option.splits list.splits
           dest!: fetchBatches_frame)

lemma fetchSheetData_data:
  assumes "fetchSheetData env name batch w = Some (Inr data, w')"
  shows "\<exists>header rest. valuesGet (sheets env) name 1 1 = Inr (Some (header # rest)) \<and>
           (\<forall>d\<in>set data. headerRow d = header)"
  using assms
  by (auto simp: fetchSheetData_def Let_def split: sum.splits option.splits list.splits
           dest!: fetchBatches_data [where data = data])

lemma fetchSheetData_ascending:
  assumes "fetchSheetData env name batch w = Some (Inr data, w')"
    and "\<forall>s e rs. valuesGet (sheets env) name s e = Inr (Some rs) \<longrightarrow> length rs \<le> e + 1 - s"
  shows "sorted_wrt (<) (map rowIndex data) \<and> (\<forall>d\<in>set data. 2 \<le> rowIndex d)"
proof -
  from assms(1) obtain header tot w2 where
    "fetchBatches env name batch header tot 2 [] w2 = Some (Inr data, w')"
    by (auto simp: fetchSheetData_def Let_def split: sum.splits option.splits list.splits)
  from fetchBatches_ascending [OF this assms(2), of data] show ?thesis by auto
qed

lemma fetchSheetData_returns:
  assumes "0 < batch \<or>
           (\<forall>s e rs. valuesGet (sheets env) name s e = Inr (Some rs) \<longrightarrow> length rs \<le> e + 1 - s)"
  shows "\<exists>res reqs. \<forall>w. fetchSheetData env name batch w =
                          Some (res, w\<lparr>requests := requests w @ reqs\<rparr>)"
proof (cases "valuesGet (sheets env) name 1 1")
  case (Inl e)
  then have "\<forall>w. fetchSheetData env name batch w =
               Some (Inl e, w\<lparr>requests := requests w @ [ValuesGet name 1 1]\<rparr>)"
    by (simp add: fetchSheetData_def)
  then show ?thesis by blast
next
  case (Inr vals)
  show ?thesis
  proof (cases "\<exists>header rest. vals = Some (header # rest)")
    case False
    then have "vals = None \<or> vals = Some []"
      by (cases vals) (metis list.exhaust)+
    then consider "vals = None" | "vals = Some []" by blast
    then show ?thesis
    proof cases
      case 1
      with Inr have "\<forall>w. fetchSheetData env name batch w =
         Some (Inl (TypeError ''Cannot read properties of undefined''),
               w\<lparr>requests := requests w @ [ValuesGet name 1 1]\<rparr>)"
        by (simp add: fetchSheetData_def)
      then show ?thesis by blast
    next
      case 2
      with Inr have "\<forall>w. fetchSheetData env name batch w =
         Some (Inl (Error ''Could not find header row in sheet''),
               w\<lparr>requests := requests w @ [ValuesGet name 1 1]\<rparr>)"
        by (simp add: fetchSheetData_def)
      then show ?thesis by blast
    qed
  next
    case True
    then obtain header rest where vals: "vals = Some (header # rest)" by blast
    show ?thesis
    proof (cases "spreadsheetGet (sheets env) name")
      case (Inl e)
      with Inr vals have "\<forall>w. fetchSheetData env name batch w =
               Some (Inl e, w\<lparr>requests := requests w @ [ValuesGet name 1 1, SpreadsheetGet name]\<rparr>)"
        by (simp add: fetchSheetData_def)
      then show ?thesis by blast
    next
      case tabs: (Inr tabs)
      show ?thesis
      proof (cases "find (\<lambda>s. fst s = name) tabs")
        case None
        with Inr vals tabs have "\<forall>w. fetchSheetData env name batch w =
               Some (Inl (TypeError ''Cannot read properties of undefined''),
                     w\<lparr>requests := requests w @ [ValuesGet name 1 1, SpreadsheetGet name]\<rparr>)"
          by (simp add: fetchSheetData_def)
        then show ?thesis by blast
      next
        case (Some s)
        from fetchBatches_returns [OF assms, of 2 header "snd s" "[]"] obtain res reqs where
          "\<forall>w. fetchBatches env name batch header (snd s) 2 [] w =
                 Some (res, w\<lparr>requests := requests w @ reqs\<rparr>)" by auto
        with Inr vals tabs Some have "\<forall>w. fetchSheetData env name batch w =
               Some (res, w\<lparr>requests := requests w @ (ValuesGet name 1 1 # SpreadsheetGet name # reqs)\<rparr>)"
          by (simp add: fetchSheetData_def)
        then show ?thesis by blast
      qed
    qed
  qed
qed

lemma mapSheetRowToLeadObject_eq:
  "mapSheetRowToLeadObject env H R n w =
     (mapColumns H R \<lparr>protoNull = False,
        own = [''sheet_row_id'' \<mapsto> JStr (StringOf n), ''last_sync'' \<mapsto> JStr (clock env (ticks w))]\<rparr>,
      w\<lparr>ticks := Suc (ticks w)\<rparr>)"
  by (simp add: mapSheetRowToLeadObject_def newDateISOString_def)

lemma mapLeads_eq:
  "mapLeads env ds w =
     (map (\<lambda>(t, d). mapColumns (headerRow d) (dataRow d)
              \<lparr>protoNull = False,
               own = [''sheet_row_id'' \<mapsto> JStr (StringOf (rowIndex d)),
                      ''last_sync'' \<mapsto> JStr (clock env t)]\<rparr>)
          (enumerate (ticks w) ds),
      w\<lparr>ticks := ticks w + length ds\<rparr>)"
  by (induction ds arbitrary: w) (simp_all add: mapSheetRowToLeadObject_eq)

section \<open>One pass\<close>



lemma failed_frame:
  "upserts (snd (failed env st h e w)) = upserts w \<and>
   leadsTable (snd (failed env st h e w)) = leadsTable w \<and>
   requests (snd (failed env st h e w)) = requests w"
  by (auto simp: failed_def callOnError_def newDateISOString_def
           split: option.splits handler.splits)

lemma failed_start: "fst (failed env st h e w) = Inr r \<Longrightarrow> syncStartTime r = st"
  by (auto simp: failed_def callOnError_def newDateISOString_def
           split: option.splits handler.splits prod.splits)

lemma failed_agree:
  assumes "ticks wa = ticks wb" "upserts wa = upserts wb" "leadsTable wa = leadsTable wb"
  shows "fst (failed env st h e wa) = fst (failed env st h e wb) \<and>
         upserts (snd (failed env st h e wa)) = upserts (snd (failed env st h e wb)) \<and>
         leadsTable (snd (failed env st h e wa)) = leadsTable (snd (failed env st h e wb))"
  using assms
  by (auto simp: failed_def callOnError_def newDateISOString_def
           split: option.splits handler.splits)

lemma sync_fetch_failed:
  assumes "fetchSheetData env (case sheetName opts of None \<Rightarrow> ''Sheet1'' | Some n \<Rightarrow> n)
             (case batchSize opts of None \<Rightarrow> 50 | Some b \<Rightarrow> b) (w\<lparr>ticks := Suc (ticks w)\<rparr>) =
           Some (Inl e, w1)"
  shows "syncSheetsToSupabase env opts w =
           Some (failed env (clock env (ticks w)) (onError opts) e w1)"
  using assms
  by (simp add: syncSheetsToSupabase_def newDateISOString_def Let_def)

lemma sync_fetched:
  assumes "fetchSheetData env (case sheetName opts of None \<Rightarrow> ''Sheet1'' | Some n \<Rightarrow> n)
             (case batchSize opts of None \<Rightarrow> 50 | Some b \<Rightarrow> b) (w\<lparr>ticks := Suc (ticks w)\<rparr>) =
           Some (Inr data, w1)"
    and "payload = map own (fst (mapLeads env data w1))"
    and "w2 = w1\<lparr>ticks := ticks w1 + length data, upserts := upserts w1 @ [payload]\<rparr>"
  shows "syncSheetsToSupabase env opts w =
           (case upsert env payload (leadsTable w1) of
              Inl e \<Rightarrow> Some (failed env (clock env (ticks w)) (onError opts) e w2)
            | Inr table \<Rightarrow> Some (Inr (SyncOk (clock env (ticks w)) (clock env (ticks w2)) (length data)),
                             w2\<lparr>leadsTable := table, ticks := Suc (ticks w2)\<rparr>))"
  using assms
  by (simp add: syncSheetsToSupabase_def newDateISOString_def Let_def mapLeads_eq
        writeLeadsToSupabase_def split: sum.splits)

text \<open>
  Claim C9. The flag \<^verbatim>\<open>forceFullSync\<close> is read from the options and never used: two runs
  that differ only in it return the same result and leave the same world, so they
  issued the same reads and submitted the same records.
\<close>

theorem forceFullSync_not_consumed:
  "syncSheetsToSupabase env (opts\<lparr>forceFullSync := f\<rparr>) w =
   syncSheetsToSupabase env (opts\<lparr>forceFullSync := g\<rparr>) w"
  by (simp add: syncSheetsToSupabase_def Let_def split: prod.splits option.splits sum.splits)









section \<open>The example sheet\<close>

lemma normalize_examples:
  "normalizeHeader ''Name'' = ''name''" "normalizeHeader ''Email'' = ''email''"
  by code_simp+

lemma StringOf_examples: "StringOf 2 = ''2''" "StringOf 3 = ''3''"
  by code_simp+

lemma exampleSheet_reads:
  "valuesGet (sheets (stubEnv exampleSheet)) ''Sheet1'' (Suc 0) (Suc 0) = Inr (Some [[''Name'', ''Email'']])"
  "valuesGet (sheets (stubEnv exampleSheet)) ''Sheet1'' 2 2 = Inr (Some [[''Alice'', ''a@x.com'']])"
  "valuesGet (sheets (stubEnv exampleSheet)) ''Sheet1'' 2 3 =
     Inr (Some [[''Alice'', ''a@x.com''], [''Bob'', ''b@x.com'']])"
  "spreadsheetGet (sheets (stubEnv exampleSheet)) ''Sheet1'' = Inr [(''Sheet1'', 3)]"
  by (simp_all add: stubEnv_def sheetSource_def exampleSheet_def dropTrailingEmpty_def)

lemmas run_simps =
  Let_def syncSheetsToSupabase_def fetchSheetData_def fetchBatches.simps exampleSheet_reads
  newDateISOString_def emptyWorld_def pushRows_def enumerate_eq_zip
  mapSheetRowToLeadObject_def mapColumns_def assign_def normalize_examples StringOf_examples
  writeLeadsToSupabase_def keyedUpsert_def upt_rec rowKey_def
  stubEnv_def [THEN arg_cong, of clock] stubEnv_def [THEN arg_cong, of upsert]
  numeral_2_eq_2 [symmetric] numeral_3_eq_3 [symmetric]

lemma example_run_1:
  "syncSheetsToSupabase (stubEnv exampleSheet)
      \<lparr>sheetName = None, batchSize = Some 1, forceFullSync = None, onError = None\<rparr> emptyWorld =
   Some (Inr (SyncOk (stubClock 0) (stubClock 2) 1),
         \<lparr>ticks = 3,
          requests = [ValuesGet ''Sheet1'' 1 1, SpreadsheetGet ''Sheet1'', ValuesGet ''Sheet1'' 2 2],
          upserts = [[[''sheet_row_id'' \<mapsto> JStr ''2'', ''last_sync'' \<mapsto> JStr (stubClock 1),
                       ''name'' \<mapsto> JStr ''Alice'', ''email'' \<mapsto> JStr ''a@x.com'']]],
          leadsTable = [[''sheet_row_id'' \<mapsto> JStr ''2'', ''last_sync'' \<mapsto> JStr (stubClock 1),
                         ''name'' \<mapsto> JStr ''Alice'', ''email'' \<mapsto> JStr ''a@x.com'']],
          reported = []\<rparr>)"
  by (simp add: run_simps)

lemma example_run_2:
  "syncSheetsToSupabase (stubEnv exampleSheet)
      \<lparr>sheetName = None, batchSize = Some 2, forceFullSync = None, onError = None\<rparr> emptyWorld =
   Some (Inr (SyncOk (stubClock 0) (stubClock 3) 2),
         \<lparr>ticks = 4,
          requests = [ValuesGet ''Sheet1'' 1 1, SpreadsheetGet ''Sheet1'', ValuesGet ''Sheet1'' 2 3],
          upserts = [[[''sheet_row_id'' \<mapsto> JStr ''2'', ''last_sync'' \<mapsto> JStr (stubClock 1),
                       ''name'' \<mapsto> JStr ''Alice'', ''email'' \<mapsto> JStr ''a@x.com''],
                      [''sheet_row_id'' \<mapsto> JStr ''3'', ''last_sync'' \<mapsto> JStr (stubClock 2),
                       ''name'' \<mapsto> JStr ''Bob'', ''email'' \<mapsto> JStr ''b@x.com'']]],
          leadsTable = [[''sheet_row_id'' \<mapsto> JStr ''2'', ''last_sync'' \<mapsto> JStr (stubClock 1),
                         ''name'' \<mapsto> JStr ''Alice'', ''email'' \<mapsto> JStr ''a@x.com''],
                        [''sheet_row_id'' \<mapsto> JStr ''3'', ''last_sync'' \<mapsto> JStr (stubClock 2),
                         ''name'' \<mapsto> JStr ''Bob'', ''email'' \<mapsto> JStr ''b@x.com'']],
          reported = []\<rparr>)"
  by (simp add: run_simps)

text \<open>
  Claim C1 (evaluation at the claim's input). With a declared row count of 3 and a batch
  size of 1 the loop reads row 2 and stops, since \<^verbatim>\<open>startRow < totalRows\<close> fails at
  row 3: one record is submitted, Alice's; Bob's row is never requested.
\<close>

theorem example_batch_1_submits_one_record:
  "resultOf (syncSheetsToSupabase (stubEnv exampleSheet)
      \<lparr>sheetName = None, batchSize = Some 1, forceFullSync = None, onError = None\<rparr> emptyWorld) =
     Some (Inr (SyncOk (stubClock 0) (stubClock 2) 1)) \<and>
   requestsOf (syncSheetsToSupabase (stubEnv exampleSheet)
      \<lparr>sheetName = None, batchSize = Some 1, forceFullSync = None, onError = None\<rparr> emptyWorld) =
     [ValuesGet ''Sheet1'' 1 1, SpreadsheetGet ''Sheet1'', ValuesGet ''Sheet1'' 2 2] \<and>
   payloadsOf (syncSheetsToSupabase (stubEnv exampleSheet)
      \<lparr>sheetName = None, batchSize = Some 1, forceFullSync = None, onError = None\<rparr> emptyWorld) =
     [[[''sheet_row_id'' \<mapsto> JStr ''2'', ''last_sync'' \<mapsto> JStr (stubClock 1),
        ''name'' \<mapsto> JStr ''Alice'', ''email'' \<mapsto> JStr ''a@x.com'']]]"
  unfolding example_run_1 resultOf_def requestsOf_def payloadsOf_def by simp

text \<open>
  Read with a batch size of 2 the same sheet yields both records: whether the last
  declared row is read depends on where the batches start.
\<close>

lemma example_batch_sizes_disagree:
  "rowsProcessedOf (syncSheetsToSupabase (stubEnv exampleSheet)
      \<lparr>sheetName = None, batchSize = Some 1, forceFullSync = None, onError = None\<rparr> emptyWorld) = Some 1 \<and>
   map (column ''name'') (payloadsOf (syncSheetsToSupabase (stubEnv exampleSheet)
      \<lparr>sheetName = None, batchSize = Some 1, forceFullSync = None, onError = None\<rparr> emptyWorld)) =
     [[Some (JStr ''Alice'')]] \<and>
   rowsProcessedOf (syncSheetsToSupabase (stubEnv exampleSheet)
      \<lparr>sheetName = None, batchSize = Some 2, forceFullSync = None, onError = None\<rparr> emptyWorld) = Some 2 \<and>
   map (column ''name'') (payloadsOf (syncSheetsToSupabase (stubEnv exampleSheet)
      \<lparr>sheetName = None, batchSize = Some 2, forceFullSync = None, onError = None\<rparr> emptyWorld)) =
     [[Some (JStr ''Alice''), Some (JStr ''Bob'')]]"
  unfolding example_run_1 example_run_2 rowsProcessedOf_def payloadsOf_def column_def by simp

text \<open>
  In a grid of 1000 rows the same data is read in two batches of size 1, the third
  batch comes back empty, and both records are submitted.
\<close>

lemma padded_batch_1_submits_two_records:
  "requestsOf (syncSheetsToSupabase (stubEnv paddedSheet)
      \<lparr>sheetName = None, batchSize = Some 1, forceFullSync = None, onError = None\<rparr> emptyWorld) =
     [ValuesGet ''Sheet1'' 1 1, SpreadsheetGet ''Sheet1'', ValuesGet ''Sheet1'' 2 2,
      ValuesGet ''Sheet1'' 3 3, ValuesGet ''Sheet1'' 4 4] \<and>
   map (column ''name'') (payloadsOf (syncSheetsToSupabase (stubEnv paddedSheet)
      \<lparr>sheetName = None, batchSize = Some 1, forceFullSync = None, onError = None\<rparr> emptyWorld)) =
     [[Some (JStr ''Alice''), Some (JStr ''Bob'')]] \<and>
   map (column ''email'') (payloadsOf (syncSheetsToSupabase (stubEnv paddedSheet)
      \<lparr>sheetName = None, batchSize = Some 1, forceFullSync = None, onError = None\<rparr> emptyWorld)) =
     [[Some (JStr ''a@x.com''), Some (JStr ''b@x.com'')]] \<and>
   map (column ''sheet_row_id'') (payloadsOf (syncSheetsToSupabase (stubEnv paddedSheet)
      \<lparr>sheetName = None, batchSize = Some 1, forceFullSync = None, onError = None\<rparr> emptyWorld)) =
     [[Some (JStr ''2''), Some (JStr ''3'')]]"
  by code_simp

section \<open>The records of a pass\<close>

lemma sync_payloads:
  assumes "syncSheetsToSupabase env opts w = Some (x, w')"
    and "name = (case sheetName opts of None \<Rightarrow> ''Sheet1'' | Some n \<Rightarrow> n)"
    and "batch = (case batchSize opts of None \<Rightarrow> 50 | Some b \<Rightarrow> b)"
  shows "(\<forall>r. x = Inr r \<longrightarrow> syncStartTime r = clock env (ticks w)) \<and>
         (newPayloads w w' = [] \<or>
          (\<exists>data w1. fetchSheetData env name batch (w\<lparr>ticks := Suc (ticks w)\<rparr>) = Some (Inr data, w1) \<and>
                     ticks w1 = Suc (ticks w) \<and>
                     newPayloads w w' = [map own (fst (mapLeads env data w1))]))"
proof (cases "fetchSheetData env name batch (w\<lparr>ticks := Suc (ticks w)\<rparr>)")
  case None
  with assms show ?thesis
    by (simp add: syncSheetsToSupabase_def newDateISOString_def Let_def)
next
  case (Some y)
  obtain res w1 where y: "y = (res, w1)" by (cases y)
  from fetchSheetData_frame [OF Some] y have frame:
    "ticks w1 = Suc (ticks w)" "upserts w1 = upserts w" by simp_all
  show ?thesis
  proof (cases res)
    case (Inl e)
    let ?out = "failed env (clock env (ticks w)) (onError opts) e w1"
    from sync_fetch_failed [of env opts w e w1] Some y Inl assms
    have "(x, w') = ?out" by simp
    then have out: "x = fst ?out" "w' = snd ?out" by (metis fst_conv, metis snd_conv)
    have "upserts w' = upserts w"
      using failed_frame [of env "clock env (ticks w)" "onError opts" e w1] out frame by simp
    moreover have "\<forall>r. x = Inr r \<longrightarrow> syncStartTime r = clock env (ticks w)"
      using out by (auto dest: failed_start)
    ultimately show ?thesis by (simp add: newPayloads_def)
  next
    case (Inr data)
    let ?payload = "map own (fst (mapLeads env data w1))"
    let ?w2 = "w1\<lparr>ticks := ticks w1 + length data, upserts := upserts w1 @ [?payload]\<rparr>"
    from Some y Inr assms(2,3) have
      "fetchSheetData env (case sheetName opts of None \<Rightarrow> ''Sheet1'' | Some n \<Rightarrow> n)
             (case batchSize opts of None \<Rightarrow> 50 | Some b \<Rightarrow> b) (w\<lparr>ticks := Suc (ticks w)\<rparr>) =
           Some (Inr data, w1)" by simp
    note run = sync_fetched [OF this refl refl]
    have "(\<forall>r. x = Inr r \<longrightarrow> syncStartTime r = clock env (ticks w)) \<and>
          upserts w' = upserts w @ [?payload]"
    proof (cases "upsert env ?payload (leadsTable w1)")
      case (Inl e)
      let ?out = "failed env (clock env (ticks w)) (onError opts) e ?w2"
      from run Inl assms(1) have "(x, w') = ?out" by simp
      then have out: "x = fst ?out" "w' = snd ?out" by (metis fst_conv, metis snd_conv)
      have "upserts w' = upserts w @ [?payload]"
        using failed_frame [of env "clock env (ticks w)" "onError opts" e ?w2] out frame by simp
      moreover have "\<forall>r. x = Inr r \<longrightarrow> syncStartTime r = clock env (ticks w)"
        using out by (auto dest: failed_start)
      ultimately show ?thesis by blast
    next
      case (Inr table)
      with run assms(1) frame show ?thesis by auto
    qed
    with Some y Inr frame show ?thesis
      by (simp add: newPayloads_def)
  qed
qed

lemma payload_last_sync:
  assumes "\<forall>d\<in>set data. ''last_sync'' \<notin> normalizeHeader ` set (headerRow d)"
  shows "column ''last_sync'' (map own (fst (mapLeads env data w1))) =
           map (\<lambda>i. Some (JStr (clock env (ticks w1 + i)))) [0..<length data]"
proof (rule nth_equalityI)
  show "length (column ''last_sync'' (map own (fst (mapLeads env data w1)))) =
        length (map (\<lambda>i. Some (JStr (clock env (ticks w1 + i)))) [0..<length data])"
    by (simp add: column_def mapLeads_eq)
next
  fix i assume "i < length (column ''last_sync'' (map own (fst (mapLeads env data w1))))"
  then have i: "i < length data" by (simp add: column_def mapLeads_eq)
  then have "''last_sync'' \<notin> normalizeHeader ` set (headerRow (data ! i))"
    using assms by simp
  with i show "column ''last_sync'' (map own (fst (mapLeads env data w1))) ! i =
        map (\<lambda>i. Some (JStr (clock env (ticks w1 + i)))) [0..<length data] ! i"
    by (simp add: column_def mapLeads_eq nth_enumerate_eq own_mapColumns_other)
qed

text \<open>
  Claim C4 (as amended). The mapper reads the clock itself, once per record, after the
  whole fetch: in a pass that starts at clock reading \<open>t\<close> (the reading any returned
  result carries as \<^verbatim>\<open>syncStartTime\<close>), record \<open>i\<close> of the submitted payload carries reading \<open>t + 1 + i\<close>
  as \<^verbatim>\<open>last_sync\<close>, provided no header cell normalises to \<^verbatim>\<open>last_sync\<close>. The field
  equals the start time, and the records agree on it, only if the clock did not advance
  between those readings.
\<close>

theorem last_sync_is_mapping_time:
  assumes "syncSheetsToSupabase env opts w = Some (x, w')"
    and "name = (case sheetName opts of None \<Rightarrow> ''Sheet1'' | Some n \<Rightarrow> n)"
    and "valuesGet (sheets env) name 1 1 = Inr (Some (header # rest))"
    and "''last_sync'' \<notin> normalizeHeader ` set header"
  shows "(\<forall>r. x = Inr r \<longrightarrow> syncStartTime r = clock env (ticks w)) \<and>
         (\<forall>p\<in>set (newPayloads w w').
            column ''last_sync'' p =
              map (\<lambda>i. Some (JStr (clock env (ticks w + 1 + i)))) [0..<length p])"
proof -
  from sync_payloads [OF assms(1,2) refl]
  have start: "\<forall>r. x = Inr r \<longrightarrow> syncStartTime r = clock env (ticks w)"
    and alt: "newPayloads w w' = [] \<or>
          (\<exists>data w1. fetchSheetData env name (case batchSize opts of None \<Rightarrow> 50 | Some b \<Rightarrow> b)
                        (w\<lparr>ticks := Suc (ticks w)\<rparr>) = Some (Inr data, w1) \<and>
                     ticks w1 = Suc (ticks w) \<and>
                     newPayloads w w' = [map own (fst (mapLeads env data w1))])"
    by blast+
  from alt have "\<forall>p\<in>set (newPayloads w w').
            column ''last_sync'' p =
              map (\<lambda>i. Some (JStr (clock env (ticks w + 1 + i)))) [0..<length p]"
  proof
    assume "newPayloads w w' = []"
    then show ?thesis by simp
  next
    assume "\<exists>data w1. fetchSheetData env name (case batchSize opts of None \<Rightarrow> 50 | Some b \<Rightarrow> b)
                        (w\<lparr>ticks := Suc (ticks w)\<rparr>) = Some (Inr data, w1) \<and>
                     ticks w1 = Suc (ticks w) \<and>
                     newPayloads w w' = [map own (fst (mapLeads env data w1))]"
    then obtain data w1 where
      f: "fetchSheetData env name (case batchSize opts of None \<Rightarrow> 50 | Some b \<Rightarrow> b)
                        (w\<lparr>ticks := Suc (ticks w)\<rparr>) = Some (Inr data, w1)"
      and t: "ticks w1 = Suc (ticks w)"
      and p: "newPayloads w w' = [map own (fst (mapLeads env data w1))]" by blast
    from fetchSheetData_data [OF f] assms(3) have "\<forall>d\<in>set data. headerRow d = header" by simp
    with assms(4) have "\<forall>d\<in>set data. ''last_sync'' \<notin> normalizeHeader ` set (headerRow d)" by simp
    from payload_last_sync [OF this, of env w1] p t show ?thesis
      by (simp add: mapLeads_eq)
  qed
  with start show ?thesis by blast
qed

text \<open>
  With a clock that advances at every reading the two records of the example sheet
  carry readings 1 and 2, the start time is reading 0.
\<close>

theorem last_sync_is_mapping_time_counterexample:
  "resultOf (syncSheetsToSupabase (stubEnv exampleSheet)
      \<lparr>sheetName = None, batchSize = Some 2, forceFullSync = None, onError = None\<rparr> emptyWorld) =
     Some (Inr (SyncOk ''2024-01-01T00:00:00.000Z'' ''2024-01-01T00:00:00.003Z'' 2)) \<and>
   map (column ''last_sync'') (payloadsOf (syncSheetsToSupabase (stubEnv exampleSheet)
      \<lparr>sheetName = None, batchSize = Some 2, forceFullSync = None, onError = None\<rparr> emptyWorld)) =
     [[Some (JStr ''2024-01-01T00:00:00.001Z''), Some (JStr ''2024-01-01T00:00:00.002Z'')]] \<and>
   map (column ''last_sync'') (payloadsOf (syncSheetsToSupabase (stubEnv exampleSheet)
      \<lparr>sheetName = None, batchSize = Some 2, forceFullSync = None, onError = None\<rparr> emptyWorld)) \<noteq>
     [[Some (JStr ''2024-01-01T00:00:00.000Z''), Some (JStr ''2024-01-01T00:00:00.000Z'')]]"
proof -
  have c: "stubClock 0 = ''2024-01-01T00:00:00.000Z''" "stubClock (Suc 0) = ''2024-01-01T00:00:00.001Z''"
    "stubClock 2 = ''2024-01-01T00:00:00.002Z''" "stubClock 3 = ''2024-01-01T00:00:00.003Z''"
    by code_simp+
  show ?thesis
    by (simp add: example_run_2 resultOf_def payloadsOf_def column_def c)
qed

theorem last_sync_is_mapping_time_witness:
  "valuesGet (sheets (stubEnv exampleSheet)) ''Sheet1'' 1 1 = Inr (Some [[''Name'', ''Email'']]) \<and>
   ''last_sync'' \<notin> normalizeHeader ` set [''Name'', ''Email''] \<and>
   resultOf (syncSheetsToSupabase (stubEnv exampleSheet)
      \<lparr>sheetName = None, batchSize = Some 2, forceFullSync = None, onError = None\<rparr> emptyWorld) =
     Some (Inr (SyncOk (stubClock 0) (stubClock 3) 2)) \<and>
   map (column ''last_sync'') (payloadsOf (syncSheetsToSupabase (stubEnv exampleSheet)
      \<lparr>sheetName = None, batchSize = Some 2, forceFullSync = None, onError = None\<rparr> emptyWorld)) =
     [[Some (JStr (stubClock 1)), Some (JStr (stubClock 2))]]"
proof -
  let ?opts = "\<lparr>sheetName = None, batchSize = Some 2, forceFullSync = None, onError = None\<rparr>"
  have n: "''Sheet1'' = (case sheetName ?opts of None \<Rightarrow> ''Sheet1'' | Some n \<Rightarrow> n)" by simp
  have h: "valuesGet (sheets (stubEnv exampleSheet)) ''Sheet1'' 1 1 = Inr (Some [[''Name'', ''Email'']])"
    using exampleSheet_reads(1) by simp
  have k: "''last_sync'' \<notin> normalizeHeader ` set [''Name'', ''Email'']"
    by (simp add: normalize_examples)
  note t = last_sync_is_mapping_time [OF example_run_2 n h k]
  have e: "ticks emptyWorld = 0" "upserts emptyWorld = []" by (simp_all add: emptyWorld_def)
  from t have p: "map (column ''last_sync'') (payloadsOf (syncSheetsToSupabase (stubEnv exampleSheet) ?opts emptyWorld)) =
     [[Some (JStr (stubClock 1)), Some (JStr (stubClock 2))]]"
    by (simp add: example_run_2 payloadsOf_def newPayloads_def e column_def
          stubEnv_def [THEN arg_cong, of clock] upt_rec numeral_2_eq_2 [symmetric])
  have r: "resultOf (syncSheetsToSupabase (stubEnv exampleSheet) ?opts emptyWorld) =
     Some (Inr (SyncOk (stubClock 0) (stubClock 3) 2))"
    by (simp add: example_run_2 resultOf_def)
  show ?thesis by (intro conjI) (rule h k r p)+
qed

section \<open>Row identifiers\<close>

lemma digitValue_digitChar: "d < 10 \<Longrightarrow> digitValue (digitChar d) = d"
  by (simp add: digitValue_def digitChar_def)

lemma NumberOf_snoc: "NumberOf (s @ [c]) = 10 * NumberOf s + digitValue c"
  by (simp add: NumberOf_def)

lemma NumberOf_StringOf: "NumberOf (StringOf n) = n"
proof (induction n rule: StringOf.induct)
  case (1 n)
  show ?case
  proof (cases "n < 10")
    case True
    then show ?thesis
      by (subst StringOf.simps) (simp add: NumberOf_def digitValue_digitChar)
  next
    case False
    with 1 have "NumberOf (StringOf (n div 10)) = n div 10" by simp
    with False show ?thesis
      by (subst StringOf.simps) (simp add: NumberOf_snoc digitValue_digitChar)
  qed
qed

lemma StringOf_inj: "StringOf m = StringOf n \<Longrightarrow> m = n"
  by (metis NumberOf_StringOf)

lemma sorted_wrt_less_distinct: "sorted_wrt (<) (ns :: nat list) \<Longrightarrow> distinct ns"
  by (induction ns) auto

lemma payload_row_keys:
  assumes "\<forall>d\<in>set data. ''sheet_row_id'' \<notin> normalizeHeader ` set (headerRow d)"
  shows "map rowKey (map own (fst (mapLeads env data w1))) =
           map (\<lambda>n. Some (JStr (StringOf n))) (map rowIndex data)"
proof (rule nth_equalityI)
  show "length (map rowKey (map own (fst (mapLeads env data w1)))) =
        length (map (\<lambda>n. Some (JStr (StringOf n))) (map rowIndex data))"
    by (simp add: mapLeads_eq)
next
  fix i assume "i < length (map rowKey (map own (fst (mapLeads env data w1))))"
  then have i: "i < length data" by (simp add: mapLeads_eq)
  then have "''sheet_row_id'' \<notin> normalizeHeader ` set (headerRow (data ! i))"
    using assms by simp
  with i show "map rowKey (map own (fst (mapLeads env data w1))) ! i =
        map (\<lambda>n. Some (JStr (StringOf n))) (map rowIndex data) ! i"
    by (simp add: rowKey_def mapLeads_eq nth_enumerate_eq own_mapColumns_other)
qed

lemma sync_returns:
  assumes "0 < batch \<or>
           (\<forall>s e rs. valuesGet (sheets env) name s e = Inr (Some rs) \<longrightarrow> length rs \<le> e + 1 - s)"
    and "name = (case sheetName opts of None \<Rightarrow> ''Sheet1'' | Some n \<Rightarrow> n)"
    and "batch = (case batchSize opts of None \<Rightarrow> 50 | Some b \<Rightarrow> b)"
  shows "\<exists>r w'. syncSheetsToSupabase env opts w = Some (r, w')"
proof -
  from fetchSheetData_returns [OF assms(1)] obtain res w1 where
    f: "fetchSheetData env name batch (w\<lparr>ticks := Suc (ticks w)\<rparr>) = Some (res, w1)" by metis
  show ?thesis
  proof (cases res)
    case (Inl e)
    with f sync_fetch_failed [of env opts w e w1] assms(2,3) show ?thesis by simp
  next
    case (Inr data)
    with f sync_fetched [of env opts w data w1, OF _ refl refl] assms(2,3) show ?thesis
      by (auto split: sum.splits)
  qed
qed

lemma length_dropTrailingEmpty: "length (dropTrailingEmpty rs) \<le> length rs"
  using length_dropWhile_le [of "\<lambda>r. r = []" "rev rs"] by (simp add: dropTrailingEmpty_def)

lemma sheetSource_width:
  assumes "valuesGet (sheetSource sh) name s e = Inr (Some rs)"
  shows "length rs \<le> e + 1 - s"
proof -
  let ?slice = "map (take 26) (take (e + 1 - s) (drop (s - 1) (cells sh)))"
  from assms have "rs = dropTrailingEmpty ?slice"
    by (auto simp: sheetSource_def Let_def split: if_splits)
  then have "length rs \<le> length ?slice" by (simp only: length_dropTrailingEmpty)
  also have "\<dots> \<le> e + 1 - s" by simp
  finally show ?thesis .
qed

text \<open>
  Claim C10 (as amended). Over a source whose ranged reads return no more rows than
  the range holds, and a header none of whose cells normalises to \<^verbatim>\<open>sheet_row_id\<close>,
  every pass returns, and the identifiers of the payload it submits are the decimal
  strings of strictly ascending row numbers: pairwise distinct, in ascending numeric
  order.
\<close>

theorem payload_ids_ascending:
  assumes "name = (case sheetName opts of None \<Rightarrow> ''Sheet1'' | Some n \<Rightarrow> n)"
    and "\<forall>s e rs. valuesGet (sheets env) name s e = Inr (Some rs) \<longrightarrow> length rs \<le> e + 1 - s"
    and "valuesGet (sheets env) name 1 1 = Inr (Some (header # rest))"
    and "''sheet_row_id'' \<notin> normalizeHeader ` set header"
  shows "\<exists>r w'. syncSheetsToSupabase env opts w = Some (r, w') \<and>
           (\<forall>p\<in>set (newPayloads w w').
              \<exists>ns. column ''sheet_row_id'' p = map (\<lambda>n. Some (JStr (StringOf n))) ns \<and>
                   map rowNumber p = map Some ns \<and> sorted_wrt (<) ns \<and>
                   distinct (column ''sheet_row_id'' p))"
proof -
  let ?batch = "case batchSize opts of None \<Rightarrow> 50 | Some b \<Rightarrow> b"
  from sync_returns [OF disjI2 [OF assms(2)] assms(1) refl] obtain r w' where
    run: "syncSheetsToSupabase env opts w = Some (r, w')" by blast
  have "\<exists>ns. column ''sheet_row_id'' p = map (\<lambda>n. Some (JStr (StringOf n))) ns \<and>
                   map rowNumber p = map Some ns \<and> sorted_wrt (<) ns \<and>
                   distinct (column ''sheet_row_id'' p)"
    if p: "p \<in> set (newPayloads w w')" for p
  proof -
    from sync_payloads [OF run assms(1) refl] p obtain data w1 where
      f: "fetchSheetData env name ?batch (w\<lparr>ticks := Suc (ticks w)\<rparr>) = Some (Inr data, w1)"
      and pl: "newPayloads w w' = [map own (fst (mapLeads env data w1))]" by auto
    from p pl have peq: "p = map own (fst (mapLeads env data w1))" by simp
    from fetchSheetData_data [OF f] assms(3) have "\<forall>d\<in>set data. headerRow d = header" by simp
    with assms(4) have "\<forall>d\<in>set data. ''sheet_row_id'' \<notin> normalizeHeader ` set (headerRow d)"
      by simp
    from payload_row_keys [OF this, of env w1] peq
    have keys: "map rowKey p = map (\<lambda>n. Some (JStr (StringOf n))) (map rowIndex data)" by simp
    from fetchSheetData_ascending [OF f assms(2)]
    have srt: "sorted_wrt (<) (map rowIndex data)" by simp
    have col: "column ''sheet_row_id'' p = map (\<lambda>n. Some (JStr (StringOf n))) (map rowIndex data)"
      using keys by (simp add: column_def rowKey_def [abs_def])
    have num: "map rowNumber p = map Some (map rowIndex data)"
    proof -
      have "\<And>f. rowNumber f = (case rowKey f of Some (JStr s) \<Rightarrow> Some (NumberOf s) | _ \<Rightarrow> None)"
        by (simp add: rowNumber_def rowKey_def)
      then have "map rowNumber p =
                 map (\<lambda>k. case k of Some (JStr s) \<Rightarrow> Some (NumberOf s) | _ \<Rightarrow> None) (map rowKey p)"
        by simp
      also have "\<dots> = map Some (map rowIndex data)"
        unfolding keys by (simp add: NumberOf_StringOf)
      finally show ?thesis .
    qed
    have dist: "distinct (column ''sheet_row_id'' p)"
      unfolding col using sorted_wrt_less_distinct [OF srt]
      by (simp add: distinct_map inj_on_def StringOf_inj del: map_map)
    from col num srt dist show ?thesis
      by (intro exI [of _ "map rowIndex data"] conjI)
  qed
  with run show ?thesis by blast
qed

text \<open>
  A sheet whose header cell normalises to \<^verbatim>\<open>sheet_row_id\<close> replaces the identifiers by
  the cells of that column: two rows holding 7 give a payload with one key twice.
\<close>

theorem payload_ids_ascending_counterexample:
  "column ''sheet_row_id'' (hd (payloadsOf (syncSheetsToSupabase (stubEnv shadowSheet)
      \<lparr>sheetName = None, batchSize = None, forceFullSync = None, onError = None\<rparr> emptyWorld))) =
     [Some (JStr ''7''), Some (JStr ''7'')] \<and>
   \<not> distinct (column ''sheet_row_id'' (hd (payloadsOf (syncSheetsToSupabase (stubEnv shadowSheet)
      \<lparr>sheetName = None, batchSize = None, forceFullSync = None, onError = None\<rparr> emptyWorld))))"
  by code_simp

theorem payload_ids_ascending_witness:
  "valuesGet (sheets (stubEnv exampleSheet)) ''Sheet1'' 1 1 = Inr (Some [[''Name'', ''Email'']]) \<and>
   ''sheet_row_id'' \<notin> normalizeHeader ` set [''Name'', ''Email''] \<and>
   (\<exists>ns. column ''sheet_row_id'' (hd (payloadsOf (syncSheetsToSupabase (stubEnv exampleSheet)
              \<lparr>sheetName = None, batchSize = Some 2, forceFullSync = None, onError = None\<rparr> emptyWorld))) =
            map (\<lambda>n. Some (JStr (StringOf n))) ns \<and>
          map rowNumber (hd (payloadsOf (syncSheetsToSupabase (stubEnv exampleSheet)
              \<lparr>sheetName = None, batchSize = Some 2, forceFullSync = None, onError = None\<rparr> emptyWorld))) =
            map Some ns \<and>
          sorted_wrt (<) ns \<and>
          distinct (column ''sheet_row_id'' (hd (payloadsOf (syncSheetsToSupabase (stubEnv exampleSheet)
              \<lparr>sheetName = None, batchSize = Some 2, forceFullSync = None, onError = None\<rparr> emptyWorld)))))"
proof -
  let ?opts = "\<lparr>sheetName = None, batchSize = Some 2, forceFullSync = None, onError = None\<rparr>"
  let ?run = "syncSheetsToSupabase (stubEnv exampleSheet) ?opts emptyWorld"
  have n: "''Sheet1'' = (case sheetName ?opts of None \<Rightarrow> ''Sheet1'' | Some n \<Rightarrow> n)" by simp
  have wd: "\<forall>s e rs. valuesGet (sheets (stubEnv exampleSheet)) ''Sheet1'' s e = Inr (Some rs)
              \<longrightarrow> length rs \<le> e + 1 - s"
    using sheetSource_width [of exampleSheet "''Sheet1''"] by (simp add: stubEnv_def)
  have h: "valuesGet (sheets (stubEnv exampleSheet)) ''Sheet1'' 1 1 = Inr (Some [[''Name'', ''Email'']])"
    using exampleSheet_reads(1) by simp
  have k: "''sheet_row_id'' \<notin> normalizeHeader ` set [''Name'', ''Email'']"
    by (simp add: normalize_examples)
  from payload_ids_ascending [OF n wd h k, of emptyWorld] obtain r w' where
    run: "?run = Some (r, w')"
    and all: "\<forall>p\<in>set (newPayloads emptyWorld w').
              \<exists>ns. column ''sheet_row_id'' p = map (\<lambda>n. Some (JStr (StringOf n))) ns \<and>
                   map rowNumber p = map Some ns \<and> sorted_wrt (<) ns \<and>
                   distinct (column ''sheet_row_id'' p)" by blast
  from run have w': "upserts w' = payloadsOf ?run" by (simp add: payloadsOf_def)
  have "payloadsOf ?run \<noteq> []" unfolding payloadsOf_def example_run_2 by simp
  then have "hd (payloadsOf ?run) \<in> set (newPayloads emptyWorld w')"
    by (simp add: newPayloads_def emptyWorld_def w')
  with all have c: "\<exists>ns. column ''sheet_row_id'' (hd (payloadsOf ?run)) =
                         map (\<lambda>n. Some (JStr (StringOf n))) ns \<and>
                   map rowNumber (hd (payloadsOf ?run)) = map Some ns \<and> sorted_wrt (<) ns \<and>
                   distinct (column ''sheet_row_id'' (hd (payloadsOf ?run)))" by blast
  show ?thesis by (intro conjI) (rule h k c)+
qed

section \<open>The batch size\<close>

lemma dropTrailingEmpty_id: "\<forall>r\<in>set rs. r \<noteq> [] \<Longrightarrow> dropTrailingEmpty rs = rs"
proof -
  assume a: "\<forall>r\<in>set rs. r \<noteq> []"
  have "dropWhile (\<lambda>r. r = []) (rev rs) = rev rs"
    using a by (cases "rev rs") (auto simp: rev_eq_Cons_iff)
  then show ?thesis by (simp add: dropTrailingEmpty_def)
qed

lemma pushRows_append:
  "pushRows header s (xs @ ys) = pushRows header s xs @ pushRows header (s + length xs) ys"
  by (simp add: pushRows_def enumerate_append_eq)

lemma pushRows_take_drop:
  "pushRows header s (take b xs) @ pushRows header (s + b) (drop b xs) = pushRows header s xs"
proof (cases "b \<le> length xs")
  case True
  then have "pushRows header s (take b xs @ drop b xs) =
             pushRows header s (take b xs) @ pushRows header (s + b) (drop b xs)"
    unfolding pushRows_append by (simp add: min_def)
  then show ?thesis by simp
next
  case False
  then show ?thesis by (simp add: pushRows_def)
qed

lemma sheetSource_slice:
  assumes "\<forall>r\<in>set (drop (s - 1) (cells sh)). r \<noteq> []"
    and "length (cells sh) < rowCount sh" "0 < b" "0 < s" "s < rowCount sh"
  shows "valuesGet (sheetSource sh) (title sh) s (min (s + b - 1) (rowCount sh)) =
           Inr (if take b (drop (s - 1) (cells sh)) = [] then None
                else Some (map (take 26) (take b (drop (s - 1) (cells sh)))))"
proof -
  let ?rest = "drop (s - 1) (cells sh)"
  have len: "length ?rest \<le> rowCount sh - s" using assms(2,4) by simp
  have "take (min (s + b - 1) (rowCount sh) + 1 - s) ?rest = take b ?rest"
  proof (cases "s + b - 1 \<le> rowCount sh")
    case True
    with assms(3,4) show ?thesis by (simp add: min_def)
  next
    case False
    then have "min (s + b - 1) (rowCount sh) + 1 - s = rowCount sh + 1 - s" by simp
    moreover have "length ?rest \<le> rowCount sh + 1 - s" using len by simp
    moreover have "length ?rest \<le> b" using len False by simp
    ultimately show ?thesis by simp
  qed
  moreover have "\<forall>r\<in>set (map (take 26) (take b ?rest)). r \<noteq> []"
    using assms(1) by (auto dest: in_set_takeD)
  then have "dropTrailingEmpty (map (take 26) (take b ?rest)) = map (take 26) (take b ?rest)"
    by (rule dropTrailingEmpty_id)
  ultimately show ?thesis
    by (simp add: sheetSource_def Let_def)
qed

lemma fetchBatches_all_rows:
  assumes "sheets env = sheetSource sh"
    and "\<forall>r\<in>set (drop (s - 1) (cells sh)). r \<noteq> []"
    and "length (cells sh) < rowCount sh" "0 < b" "0 < s"
  shows "\<exists>w'. fetchBatches env (title sh) b header (rowCount sh) s acc w =
           Some (Inr (acc @ pushRows header s (map (take 26) (drop (s - 1) (cells sh)))), w')"
  using assms(2,5)
proof (induction "rowCount sh - s" arbitrary: s acc w rule: less_induct)
  case less
  let ?rest = "drop (s - 1) (cells sh)"
  show ?case
  proof (cases "s < rowCount sh")
    case False
    then have "?rest = []" using assms(3) by simp
    with False show ?thesis by (simp add: fetchBatches_stop pushRows_def)
  next
    case True
    let ?e = "min (s + b - 1) (rowCount sh)"
    have rd: "valuesGet (sheets env) (title sh) s ?e =
           Inr (if take b ?rest = [] then None else Some (map (take 26) (take b ?rest)))"
      unfolding assms(1) using less.prems(1) assms(3,4) less.prems(2) True by (rule sheetSource_slice)
    show ?thesis
    proof (cases "take b ?rest = []")
      case empty: True
      with assms(4) have "?rest = []" by (cases ?rest) auto
      with fetchBatches_break [OF True rd, of header acc w] empty show ?thesis
        by (simp add: pushRows_def)
    next
      case False
      let ?rows = "map (take 26) (take b ?rest)"
      have step: "fetchBatches env (title sh) b header (rowCount sh) s acc w =
                  fetchBatches env (title sh) b header (rowCount sh) (s + b)
                    (acc @ pushRows header s ?rows)
                    (w\<lparr>requests := requests w @ [ValuesGet (title sh) s ?e]\<rparr>)"
        using fetchBatches_next [OF True rd, of header acc w] False by simp
      have m: "rowCount sh - (s + b) < rowCount sh - s" using True assms(4) by simp
      have d: "drop (s + b - 1) (cells sh) = drop b ?rest"
        using less.prems(2) by (simp add: add.commute)
      have nb: "\<forall>r\<in>set (drop (s + b - 1) (cells sh)). r \<noteq> []"
      proof
        fix r assume "r \<in> set (drop (s + b - 1) (cells sh))"
        then have "r \<in> set (drop b ?rest)" unfolding d .
        then have "r \<in> set ?rest" by (rule in_set_dropD)
        with less.prems(1) show "r \<noteq> []" by blast
      qed
      from less.hyps [OF m nb, of "acc @ pushRows header s ?rows"
                         "w\<lparr>requests := requests w @ [ValuesGet (title sh) s ?e]\<rparr>"]
      obtain w' where rec: "fetchBatches env (title sh) b header (rowCount sh) (s + b)
                    (acc @ pushRows header s ?rows)
                    (w\<lparr>requests := requests w @ [ValuesGet (title sh) s ?e]\<rparr>) =
            Some (Inr ((acc @ pushRows header s ?rows) @
                       pushRows header (s + b) (map (take 26) (drop (s + b - 1) (cells sh)))), w')"
        using less.prems(2) by auto
      have "pushRows header s ?rows @ pushRows header (s + b) (map (take 26) (drop (s + b - 1) (cells sh)))
            = pushRows header s (map (take 26) ?rest)"
        unfolding d using pushRows_take_drop [of header s b "map (take 26) ?rest"]
        by (simp add: take_map drop_map)
      with step rec show ?thesis by simp
    qed
  qed
qed


lemma fetchSheetData_batch_free:
  assumes "sheets env = sheetSource sh"
    and "\<forall>r\<in>set (tl (cells sh)). r \<noteq> []"
    and "length (cells sh) < rowCount sh"
  shows "\<exists>res. \<forall>b>0. \<forall>w. \<exists>w'. fetchSheetData env name b w = Some (res, w')"
proof (cases "name = title sh \<and> cells sh \<noteq> [] \<and> hd (cells sh) \<noteq> []")
  case False
  then consider "name \<noteq> title sh" | "name = title sh" "cells sh = []"
    | "name = title sh" "cells sh \<noteq> []" "hd (cells sh) = []" by blast
  then show ?thesis
  proof cases
    case 1
    then have "\<forall>b>0. \<forall>w. \<exists>w'. fetchSheetData env name b w =
                 Some (Inl (Error ''Unable to parse range''), w')"
      by (simp add: fetchSheetData_def assms(1) sheetSource_def)
    then show ?thesis by blast
  next
    case 2
    then have "\<forall>b>0. \<forall>w. \<exists>w'. fetchSheetData env name b w =
                 Some (Inl (TypeError ''Cannot read properties of undefined''), w')"
      by (simp add: fetchSheetData_def assms(1) sheetSource_def dropTrailingEmpty_def)
    then show ?thesis by blast
  next
    case 3
    then obtain rest where "cells sh = [] # rest" by (cases "cells sh") auto
    with 3 have "\<forall>b>0. \<forall>w. \<exists>w'. fetchSheetData env name b w =
                 Some (Inl (TypeError ''Cannot read properties of undefined''), w')"
      by (simp add: fetchSheetData_def assms(1) sheetSource_def dropTrailingEmpty_def)
    then show ?thesis by blast
  qed
next
  case True
  then obtain h rest where c: "cells sh = h # rest" "h \<noteq> []" and n: "name = title sh"
    by (cases "cells sh") auto
  have hd: "valuesGet (sheets env) name 1 1 = Inr (Some [take 26 h])"
    using c n by (simp add: assms(1) sheetSource_def dropTrailingEmpty_def)
  have md: "spreadsheetGet (sheets env) name = Inr [(title sh, rowCount sh)]"
    using n by (simp add: assms(1) sheetSource_def)
  have nb: "\<forall>r\<in>set (drop (2 - 1) (cells sh)). r \<noteq> []"
    using assms(2) c by simp
  have "\<exists>w'. fetchSheetData env name b w =
          Some (Inr (pushRows (take 26 h) 2 (map (take 26) (drop (2 - 1) (cells sh)))), w')"
    if "0 < b" for b w
  proof -
    from fetchBatches_all_rows [OF assms(1) nb assms(3) that, of "take 26 h" "[]"]
    have "\<exists>w'. fetchBatches env (title sh) b (take 26 h) (rowCount sh) 2 []
             (w\<lparr>requests := requests w @ [ValuesGet name 1 1, SpreadsheetGet name]\<rparr>) =
           Some (Inr (pushRows (take 26 h) 2 (map (take 26) (drop (2 - 1) (cells sh)))), w')"
      by simp
    then show ?thesis
      using hd md n by (simp add: fetchSheetData_def)
  qed
  then show ?thesis by blast
qed

text \<open>
  Claim C5 (as amended). Over a sheet of the stub source whose data rows are not blank
  and whose declared row count exceeds the number of rows it holds, two runs from the
  same world that differ only in a positive batch size return the same result and
  leave the same upsert log and the same table; each submits at most one payload.
\<close>

theorem batchSize_only_chunks_reads:
  assumes "sheets env = sheetSource sh"
    and "\<forall>r\<in>set (tl (cells sh)). r \<noteq> []"
    and "length (cells sh) < rowCount sh"
    and "0 < b1" "0 < b2"
  shows "\<exists>r w1 w2. syncSheetsToSupabase env (opts\<lparr>batchSize := Some b1\<rparr>) w = Some (r, w1) \<and>
                   syncSheetsToSupabase env (opts\<lparr>batchSize := Some b2\<rparr>) w = Some (r, w2) \<and>
                   upserts w1 = upserts w2 \<and> leadsTable w1 = leadsTable w2 \<and>
                   length (newPayloads w w1) \<le> 1"
proof -
  let ?name = "case sheetName opts of None \<Rightarrow> ''Sheet1'' | Some n \<Rightarrow> n"
  let ?w0 = "w\<lparr>ticks := Suc (ticks w)\<rparr>"
  let ?o1 = "opts\<lparr>batchSize := Some b1\<rparr>" and ?o2 = "opts\<lparr>batchSize := Some b2\<rparr>"
  from fetchSheetData_batch_free [OF assms(1,2,3), of ?name] assms(4,5) obtain res wa wb where
    fa: "fetchSheetData env ?name b1 ?w0 = Some (res, wa)" and
    fb: "fetchSheetData env ?name b2 ?w0 = Some (res, wb)" by metis
  from fetchSheetData_frame [OF fa] fetchSheetData_frame [OF fb] have frame:
    "ticks wa = ticks wb" "upserts wa = upserts w" "upserts wb = upserts w"
    "leadsTable wa = leadsTable wb" "reported wa = reported wb" by simp_all
  show ?thesis
  proof (cases res)
    case (Inl e)
    let ?oa = "failed env (clock env (ticks w)) (onError opts) e wa"
    let ?ob = "failed env (clock env (ticks w)) (onError opts) e wb"
    from sync_fetch_failed [of env ?o1 w e wa] sync_fetch_failed [of env ?o2 w e wb] fa fb Inl
    have runs: "syncSheetsToSupabase env ?o1 w = Some (fst ?oa, snd ?oa)"
      "syncSheetsToSupabase env ?o2 w = Some (fst ?ob, snd ?ob)" by simp_all
    from failed_agree [of wa wb env "clock env (ticks w)" "onError opts" e] frame
    have agree: "fst ?oa = fst ?ob" "upserts (snd ?oa) = upserts (snd ?ob)"
      "leadsTable (snd ?oa) = leadsTable (snd ?ob)" by simp_all
    have "upserts (snd ?oa) = upserts w"
      using failed_frame [of env "clock env (ticks w)" "onError opts" e wa] frame by simp
    then have "length (newPayloads w (snd ?oa)) \<le> 1" by (simp add: newPayloads_def)
    with runs agree show ?thesis by metis
  next
    case (Inr data)
    let ?p = "map own (fst (mapLeads env data wa))"
    have p: "?p = map own (fst (mapLeads env data wb))"
      by (simp add: mapLeads_eq frame)
    let ?wa2 = "wa\<lparr>ticks := ticks wa + length data, upserts := upserts wa @ [?p]\<rparr>"
    let ?wb2 = "wb\<lparr>ticks := ticks wb + length data, upserts := upserts wb @ [?p]\<rparr>"
    note ra = sync_fetched [of env ?o1 w data wa ?p ?wa2, OF _ refl refl]
    note rb = sync_fetched [of env ?o2 w data wb ?p ?wb2, OF _ p refl]
    show ?thesis
    proof (cases "upsert env ?p (leadsTable wa)")
      case failure: (Inl e)
      let ?oa = "failed env (clock env (ticks w)) (onError opts) e ?wa2"
      let ?ob = "failed env (clock env (ticks w)) (onError opts) e ?wb2"
      from ra rb fa fb Inr failure frame
      have runs: "syncSheetsToSupabase env ?o1 w = Some (fst ?oa, snd ?oa)"
        "syncSheetsToSupabase env ?o2 w = Some (fst ?ob, snd ?ob)" by simp_all
      from failed_agree [of ?wa2 ?wb2 env "clock env (ticks w)" "onError opts" e] frame
      have agree: "fst ?oa = fst ?ob" "upserts (snd ?oa) = upserts (snd ?ob)"
        "leadsTable (snd ?oa) = leadsTable (snd ?ob)" by simp_all
      have "upserts (snd ?oa) = upserts w @ [?p]"
        using failed_frame [of env "clock env (ticks w)" "onError opts" e ?wa2] frame by simp
      then have "length (newPayloads w (snd ?oa)) \<le> 1" by (simp add: newPayloads_def)
      with runs agree show ?thesis by metis
    next
      case stored: (Inr table)
      from ra rb fa fb Inr stored frame show ?thesis
        by (simp add: newPayloads_def)
    qed
  qed
qed

text \<open>
  A batch that comes back empty ends the fetch. On a sheet with a blank third row a
  batch size of 1 stops there and submits one record; a batch size of 2 reads past it
  and submits two.
\<close>

theorem batchSize_only_chunks_reads_counterexample:
  "rowsProcessedOf (syncSheetsToSupabase (stubEnv gapSheet)
      \<lparr>sheetName = None, batchSize = Some 1, forceFullSync = None, onError = None\<rparr> emptyWorld) = Some 1 \<and>
   map (column ''name'') (payloadsOf (syncSheetsToSupabase (stubEnv gapSheet)
      \<lparr>sheetName = None, batchSize = Some 1, forceFullSync = None, onError = None\<rparr> emptyWorld)) =
     [[Some (JStr ''Alice'')]] \<and>
   rowsProcessedOf (syncSheetsToSupabase (stubEnv gapSheet)
      \<lparr>sheetName = None, batchSize = Some 2, forceFullSync = None, onError = None\<rparr> emptyWorld) = Some 2 \<and>
   map (column ''name'') (payloadsOf (syncSheetsToSupabase (stubEnv gapSheet)
      \<lparr>sheetName = None, batchSize = Some 2, forceFullSync = None, onError = None\<rparr> emptyWorld)) =
     [[Some (JStr ''Alice''), Some (JStr ''Bob'')]]"
  by code_simp

theorem batchSize_only_chunks_reads_witness:
  "sheets (stubEnv paddedSheet) = sheetSource paddedSheet \<and>
   filter (\<lambda>r. r = []) (tl (cells paddedSheet)) = [] \<and>
   length (cells paddedSheet) < rowCount paddedSheet \<and>
   (\<exists>r w1 w2.
      syncSheetsToSupabase (stubEnv paddedSheet)
        \<lparr>sheetName = None, batchSize = Some 2, forceFullSync = None, onError = None\<rparr> emptyWorld = Some (r, w1) \<and>
      syncSheetsToSupabase (stubEnv paddedSheet)
        \<lparr>sheetName = None, batchSize = Some 3, forceFullSync = None, onError = None\<rparr> emptyWorld = Some (r, w2) \<and>
      upserts w1 = upserts w2 \<and> leadsTable w1 = leadsTable w2 \<and>
      length (newPayloads emptyWorld w1) \<le> 1)"
proof -
  have a: "sheets (stubEnv paddedSheet) = sheetSource paddedSheet" by (simp add: stubEnv_def)
  have b: "\<forall>r\<in>set (tl (cells paddedSheet)). r \<noteq> []"
    by (simp add: paddedSheet_def exampleSheet_def)
  have b': "filter (\<lambda>r. r = []) (tl (cells paddedSheet)) = []"
    using b by (simp add: filter_empty_conv)
  have c: "length (cells paddedSheet) < rowCount paddedSheet"
    by (simp add: paddedSheet_def exampleSheet_def)
  have p: "(0::nat) < 2" "(0::nat) < 3" by simp_all
  from batchSize_only_chunks_reads [OF a b c p,
         of "\<lparr>sheetName = None, batchSize = None, forceFullSync = None, onError = None\<rparr>" emptyWorld]
  have d: "\<exists>r w1 w2.
      syncSheetsToSupabase (stubEnv paddedSheet)
        \<lparr>sheetName = None, batchSize = Some 2, forceFullSync = None, onError = None\<rparr> emptyWorld = Some (r, w1) \<and>
      syncSheetsToSupabase (stubEnv paddedSheet)
        \<lparr>sheetName = None, batchSize = Some 3, forceFullSync = None, onError = None\<rparr> emptyWorld = Some (r, w2) \<and>
      upserts w1 = upserts w2 \<and> leadsTable w1 = leadsTable w2 \<and>
      length (newPayloads emptyWorld w1) \<le> 1"
    by simp
  show ?thesis by (intro conjI) (rule a b' c d)+
qed

section \<open>Two passes over an unchanged sheet\<close>

lemma rowKey_merge: "rowKey t = rowKey r \<Longrightarrow> rowKey (t ++ r) = rowKey t"
  by (auto simp: rowKey_def map_add_def split: option.splits)

lemma keys_upsertRow:
  "map rowKey (upsertRow r t) =
     (if rowKey r \<in> set (map rowKey t) then map rowKey t else map rowKey t @ [rowKey r])"
  by (induction t) (auto simp: rowKey_merge)

lemma set_keys_upsertRow: "rowKey ` set (upsertRow r t) = insert (rowKey r) (rowKey ` set t)"
proof -
  have "set (map rowKey (upsertRow r t)) = insert (rowKey r) (set (map rowKey t))"
    unfolding keys_upsertRow by auto
  then show ?thesis by simp
qed

lemma keys_upsert_known:
  "rowKey ` set payload \<subseteq> rowKey ` set t \<Longrightarrow>
   map rowKey (foldl (\<lambda>t r. upsertRow r t) t payload) = map rowKey t"
proof (induction payload arbitrary: t)
  case Nil
  then show ?case by simp
next
  case (Cons a payload)
  then have a: "rowKey a \<in> rowKey ` set t" and rest: "rowKey ` set payload \<subseteq> rowKey ` set t"
    by auto
  from a have same: "map rowKey (upsertRow a t) = map rowKey t"
    by (simp add: keys_upsertRow)
  from rest have "rowKey ` set payload \<subseteq> rowKey ` set (upsertRow a t)"
    by (auto simp: set_keys_upsertRow)
  from Cons.IH [OF this] same show ?case by simp
qed

lemma distinct_upsertRow:
  "distinct (map rowKey t) \<Longrightarrow> distinct (map rowKey (upsertRow r t))"
  unfolding keys_upsertRow by simp

lemma distinct_upsert:
  "distinct (map rowKey t) \<Longrightarrow> distinct (map rowKey (foldl (\<lambda>t r. upsertRow r t) t payload))"
  by (induction payload arbitrary: t) (simp_all add: distinct_upsertRow del: distinct_map)

lemma keys_upsert_cover:
  "rowKey ` set (foldl (\<lambda>t r. upsertRow r t) t payload) = rowKey ` set t \<union> rowKey ` set payload"
  by (induction payload arbitrary: t) (auto simp: set_keys_upsertRow)

lemma one_row_per_key:
  "distinct (map f xs) \<Longrightarrow> k \<in> set (map f xs) \<Longrightarrow> length (filter (\<lambda>t. f t = k) xs) = 1"
proof (induction xs)
  case Nil
  then show ?case by simp
next
  case (Cons x xs)
  show ?case
  proof (cases "f x = k")
    case True
    with Cons.prems have "k \<notin> f ` set xs" by auto
    then have "filter (\<lambda>t. f t = k) xs = []" by (auto simp: filter_empty_conv)
    with True show ?thesis by simp
  next
    case False
    with Cons show ?thesis by auto
  qed
qed

lemma forgetLastSync_upd:
  "forgetLastSync (m(k \<mapsto> v)) =
     (if k = ''last_sync'' then forgetLastSync m else (forgetLastSync m)(k \<mapsto> v))"
  by (auto simp: forgetLastSync_def fun_eq_iff)

lemma assign_forget:
  assumes "protoNull l1 = protoNull l2" "forgetLastSync (own l1) = forgetLastSync (own l2)"
  shows "protoNull (assign k v l1) = protoNull (assign k v l2) \<and>
         forgetLastSync (own (assign k v l1)) = forgetLastSync (own (assign k v l2))"
  using assms by (auto simp: assign_def forgetLastSync_upd split: jsval.splits)

lemma mapColumns_forget:
  assumes "protoNull l1 = protoNull l2" "forgetLastSync (own l1) = forgetLastSync (own l2)"
  shows "protoNull (mapColumns H R l1) = protoNull (mapColumns H R l2) \<and>
         forgetLastSync (own (mapColumns H R l1)) = forgetLastSync (own (mapColumns H R l2))"
proof (induction H rule: rev_induct)
  case Nil
  then show ?case using assms by (simp add: mapColumns_Nil)
next
  case (snoc h H)
  then show ?case
    unfolding mapColumns_snoc by (intro assign_forget) simp_all
qed

lemma payload_forget:
  "map forgetLastSync (map own (fst (mapLeads env data w1))) =
   map forgetLastSync (map own (fst (mapLeads env data w2)))"
proof (rule nth_equalityI)
  show "length (map forgetLastSync (map own (fst (mapLeads env data w1)))) =
        length (map forgetLastSync (map own (fst (mapLeads env data w2))))"
    by (simp add: mapLeads_eq)
next
  fix i assume "i < length (map forgetLastSync (map own (fst (mapLeads env data w1))))"
  then have i: "i < length data" by (simp add: mapLeads_eq)
  have "forgetLastSync (own (mapColumns (headerRow (data ! i)) (dataRow (data ! i))
           \<lparr>protoNull = False, own = [''sheet_row_id'' \<mapsto> JStr (StringOf (rowIndex (data ! i))),
                                      ''last_sync'' \<mapsto> JStr (clock env (ticks w1 + i))]\<rparr>)) =
        forgetLastSync (own (mapColumns (headerRow (data ! i)) (dataRow (data ! i))
           \<lparr>protoNull = False, own = [''sheet_row_id'' \<mapsto> JStr (StringOf (rowIndex (data ! i))),
                                      ''last_sync'' \<mapsto> JStr (clock env (ticks w2 + i))]\<rparr>))"
    by (intro mapColumns_forget [THEN conjunct2]) (simp_all add: forgetLastSync_upd)
  with i show "map forgetLastSync (map own (fst (mapLeads env data w1))) ! i =
               map forgetLastSync (map own (fst (mapLeads env data w2))) ! i"
    by (simp add: mapLeads_eq nth_enumerate_eq)
qed

lemma rowKey_forget: "rowKey (forgetLastSync f) = rowKey f"
  by (simp add: rowKey_def forgetLastSync_def)

lemma payload_keys_eq:
  "map rowKey (map own (fst (mapLeads env data w1))) = map rowKey (map own (fst (mapLeads env data w2)))"
proof -
  have "map rowKey (map forgetLastSync (map own (fst (mapLeads env data w1)))) =
        map rowKey (map forgetLastSync (map own (fst (mapLeads env data w2))))"
    by (simp only: payload_forget [of env data w1 w2])
  then show ?thesis by (simp add: rowKey_forget o_def)
qed

subsection \<open>What the store holds after a pass\<close>

lemma row_kept_upsertRow:
  "t \<in> set T \<Longrightarrow> rowKey t \<noteq> rowKey r \<Longrightarrow> t \<in> set (upsertRow r T)"
  by (induction T) auto

lemma row_stored_upsertRow: "\<exists>t\<in>set (upsertRow r T). rowKey t = rowKey r \<and> r \<subseteq>\<^sub>m t"
proof (induction T)
  case Nil
  then show ?case by simp
next
  case (Cons a T)
  show ?case
  proof (cases "rowKey a = rowKey r")
    case True
    then have "rowKey (a ++ r) = rowKey r" by (simp add: rowKey_merge)
    moreover have "r \<subseteq>\<^sub>m a ++ r" by (auto simp: map_le_def map_add_def)
    ultimately show ?thesis using True by auto
  next
    case False
    with Cons show ?thesis by auto
  qed
qed

lemma upsert_snoc:
  "foldl (\<lambda>t r. upsertRow r t) T (p @ [r]) = upsertRow r (foldl (\<lambda>t r. upsertRow r t) T p)"
  by simp

lemma rows_stored:
  assumes "i < length p" "rowKey (p ! i) \<notin> rowKey ` set (drop (Suc i) p)"
  shows "\<exists>t\<in>set (foldl (\<lambda>t r. upsertRow r t) T p). rowKey t = rowKey (p ! i) \<and> p ! i \<subseteq>\<^sub>m t"
  using assms
proof (induction p rule: rev_induct)
  case Nil
  then show ?case by simp
next
  case (snoc r p)
  show ?case
  proof (cases "i = length p")
    case True
    then show ?thesis
      unfolding upsert_snoc using row_stored_upsertRow [of r] by simp
  next
    case False
    with snoc.prems have i: "i < length p" by simp
    with snoc.prems(2) have later: "rowKey (p ! i) \<notin> rowKey ` set (drop (Suc i) p)"
      and ne: "rowKey (p ! i) \<noteq> rowKey r" by (auto simp: nth_append)
    from snoc.IH [OF i later] obtain t where
      t: "t \<in> set (foldl (\<lambda>t r. upsertRow r t) T p)" "rowKey t = rowKey (p ! i)" "p ! i \<subseteq>\<^sub>m t"
      by blast
    from t(1) have "t \<in> set (upsertRow r (foldl (\<lambda>t r. upsertRow r t) T p))"
      using ne t(2) by (intro row_kept_upsertRow) simp_all
    with t i show ?thesis unfolding upsert_snoc by (auto simp: nth_append)
  qed
qed

lemma holdsRow_mono: "holdsRow H R n f \<Longrightarrow> f \<subseteq>\<^sub>m t \<Longrightarrow> holdsRow H R n t"
proof -
  assume h: "holdsRow H R n f" and le: "f \<subseteq>\<^sub>m t"
  have keep: "\<And>k v. f k = Some v \<Longrightarrow> t k = Some v"
    using le by (metis domI map_le_def)
  from h show ?thesis
    unfolding holdsRow_def by (auto intro: keep)
qed

lemma holdsRow_mapped:
  assumes "''sheet_row_id'' \<notin> normalizeHeader ` set H" "''__proto__'' \<notin> normalizeHeader ` set H"
  shows "holdsRow H R n (own (mapColumns H R
           \<lparr>protoNull = False, own = [''sheet_row_id'' \<mapsto> JStr (StringOf n), ''last_sync'' \<mapsto> JStr now]\<rparr>))"
  unfolding holdsRow_def
proof (intro conjI allI impI)
  show "own (mapColumns H R \<lparr>protoNull = False,
          own = [''sheet_row_id'' \<mapsto> JStr (StringOf n), ''last_sync'' \<mapsto> JStr now]\<rparr>) ''sheet_row_id'' =
        Some (JStr (StringOf n))"
    using assms(1) by (simp add: own_mapColumns_other)
next
  fix j assume j: "j < length H"
    and last: "normalizeHeader (H ! j) \<notin> normalizeHeader ` set (drop (Suc j) H)"
  from j assms(2) have "normalizeHeader (H ! j) \<noteq> ''__proto__''" by (metis imageI nth_mem)
  with j last show "own (mapColumns H R \<lparr>protoNull = False,
          own = [''sheet_row_id'' \<mapsto> JStr (StringOf n), ''last_sync'' \<mapsto> JStr now]\<rparr>)
          (normalizeHeader (H ! j)) = Some (if j < length R then JStr (R ! j) else JNull)"
    by (intro own_mapColumns_last)
qed

lemma nth_pushRows:
  "i < length Rs \<Longrightarrow> pushRows H s Rs ! i = \<lparr>headerRow = H, dataRow = Rs ! i, rowIndex = s + i\<rparr>"
  by (simp add: pushRows_def nth_enumerate_eq)

lemma payload_holdsRow:
  assumes "''sheet_row_id'' \<notin> normalizeHeader ` set H" "''__proto__'' \<notin> normalizeHeader ` set H"
    and "i < length Rs"
  shows "holdsRow H (Rs ! i) (i + 2) (map own (fst (mapLeads env (pushRows H 2 Rs) wa)) ! i)"
proof -
  have len: "length (pushRows H 2 Rs) = length Rs" by (simp add: pushRows_def)
  have "map own (fst (mapLeads env (pushRows H 2 Rs) wa)) ! i =
        own (mapColumns H (Rs ! i)
          \<lparr>protoNull = False,
           own = [''sheet_row_id'' \<mapsto> JStr (StringOf (i + 2)),
                  ''last_sync'' \<mapsto> JStr (clock env (ticks wa + i))]\<rparr>)"
    using assms(3) by (simp add: mapLeads_eq len nth_enumerate_eq nth_pushRows add.commute)
  then show ?thesis using holdsRow_mapped [OF assms(1,2)] by simp
qed

lemma fetchSheetData_plain:
  assumes "sheets env = sheetSource sh" "plainSheet name sh" "0 < b"
  shows "\<exists>w'. fetchSheetData env name b w =
           Some (Inr (pushRows (take 26 (hd (cells sh))) 2 (map (take 26) (tl (cells sh)))), w')"
proof -
  from assms(2) obtain h rows where c: "cells sh = h # rows" "h \<noteq> []" and n: "name = title sh"
    and nb: "\<forall>r\<in>set rows. r \<noteq> []" and lt: "length (cells sh) < rowCount sh"
    by (cases "cells sh") (auto simp: plainSheet_def)
  have hd: "valuesGet (sheets env) name 1 1 = Inr (Some [take 26 h])"
    using c n by (simp add: assms(1) sheetSource_def dropTrailingEmpty_def)
  have md: "spreadsheetGet (sheets env) name = Inr [(title sh, rowCount sh)]"
    using n by (simp add: assms(1) sheetSource_def)
  have nb': "\<forall>r\<in>set (drop (2 - 1) (cells sh)). r \<noteq> []"
    using nb c by simp
  from fetchBatches_all_rows [OF assms(1) nb' lt assms(3), of "take 26 h" "[]"]
  have "\<exists>w'. fetchBatches env (title sh) b (take 26 h) (rowCount sh) 2 []
           (w\<lparr>requests := requests w @ [ValuesGet name 1 1, SpreadsheetGet name]\<rparr>) =
         Some (Inr (pushRows (take 26 h) 2 (map (take 26) (drop (2 - 1) (cells sh)))), w')"
    by simp
  then show ?thesis
    using hd md n c by (simp add: fetchSheetData_def)
qed

lemma pass_fetch_failed:
  assumes "fetchSheetData env name batch (w\<lparr>ticks := Suc (ticks w)\<rparr>) = Some (Inl e, wa)"
    and "name = (case sheetName opts of None \<Rightarrow> ''Sheet1'' | Some n \<Rightarrow> n)"
    and "batch = (case batchSize opts of None \<Rightarrow> 50 | Some b \<Rightarrow> b)"
  shows "\<exists>x w'. syncSheetsToSupabase env opts w = Some (x, w') \<and>
                upserts w' = upserts w \<and> leadsTable w' = leadsTable w"
proof -
  let ?out = "failed env (clock env (ticks w)) (onError opts) e wa"
  from fetchSheetData_frame [OF assms(1)] have "upserts wa = upserts w" "leadsTable wa = leadsTable w"
    by simp_all
  with failed_frame [of env "clock env (ticks w)" "onError opts" e wa]
  have "upserts (snd ?out) = upserts w" "leadsTable (snd ?out) = leadsTable w" by simp_all
  moreover from sync_fetch_failed [of env opts w e wa] assms
  have "syncSheetsToSupabase env opts w = Some (fst ?out, snd ?out)" by simp
  ultimately show ?thesis by blast
qed

lemma pass_with_keyed_store:
  assumes "fetchSheetData env name batch (w\<lparr>ticks := Suc (ticks w)\<rparr>) = Some (Inr data, wa)"
    and "name = (case sheetName opts of None \<Rightarrow> ''Sheet1'' | Some n \<Rightarrow> n)"
    and "batch = (case batchSize opts of None \<Rightarrow> 50 | Some b \<Rightarrow> b)"
    and "upsert env = keyedUpsert"
  shows "\<exists>x w'. syncSheetsToSupabase env opts w = Some (x, w') \<and>
                (\<exists>s e. x = Inr (SyncOk s e (length data))) \<and>
                upserts w' = upserts w @ [map own (fst (mapLeads env data wa))] \<and>
                leadsTable w' = foldl (\<lambda>t r. upsertRow r t) (leadsTable w)
                                  (map own (fst (mapLeads env data wa)))"
proof -
  from fetchSheetData_frame [OF assms(1)] have "upserts wa = upserts w" "leadsTable wa = leadsTable w"
    by simp_all
  with sync_fetched [of env opts w data wa, OF _ refl refl] assms show ?thesis
    by (simp add: keyedUpsert_def)
qed

lemma payload_length: "length (map own (fst (mapLeads env data wa))) = length data"
  by (simp add: mapLeads_eq)

lemma holdsRow_key: "holdsRow H R n f \<Longrightarrow> rowKey f = Some (JStr (StringOf n))"
  by (simp add: holdsRow_def rowKey_def)

lemma numbered_keys_later:
  assumes "\<forall>i<length p. rowKey (p ! i) = Some (JStr (StringOf (i + 2)))" "i < length p"
  shows "rowKey (p ! i) \<notin> rowKey ` set (drop (Suc i) p)"
proof
  assume "rowKey (p ! i) \<in> rowKey ` set (drop (Suc i) p)"
  then obtain x where x: "x \<in> set (drop (Suc i) p)" "rowKey (p ! i) = rowKey x" by blast
  from x(1) obtain k where k: "k < length (drop (Suc i) p)" "x = drop (Suc i) p ! k"
    by (auto simp: in_set_conv_nth)
  then have j: "Suc i + k < length p" "x = p ! (Suc i + k)" by simp_all
  from assms(1) j(1) have "rowKey (p ! (Suc i + k)) = Some (JStr (StringOf (Suc i + k + 2)))" by blast
  moreover from assms have "rowKey (p ! i) = Some (JStr (StringOf (i + 2)))" by blast
  ultimately have "StringOf (i + 2) = StringOf (Suc i + k + 2)" using x(2) j(2) by simp
  then have "i + 2 = Suc i + k + 2" by (rule StringOf_inj)
  then show False by simp
qed

text \<open>
  Claim C2. Over any sheet of the stub source and the keyed store, from a table whose
  rows have distinct identifiers, two consecutive passes with the same options both
  return; the records they submit are equal once \<^verbatim>\<open>last_sync\<close> is left out; after the
  second pass the identifiers in the table are still distinct and are those present
  after the first (the second pass creates no record); every submitted record's
  identifier is held by exactly one row, and the row of the last record submitted under
  an identifier holds that record's fields. On a sheet that has a header and no blank
  row, whose grid is larger than its data and whose header names neither the identifier
  nor \<^verbatim>\<open>__proto__\<close>, read with a positive batch size, both passes succeed and count
  every data row, each submits one record per data row holding the row's number and its
  cells under the normalized header names, and the table ends with exactly one row per
  data row, holding the same.
\<close>

theorem two_passes_idempotent_by_id:
  assumes "sheets env = sheetSource sh"
    and "upsert env = keyedUpsert"
    and "distinct (map rowKey (leadsTable w))"
    and "name = (case sheetName opts of None \<Rightarrow> ''Sheet1'' | Some n \<Rightarrow> n)"
    and "batch = (case batchSize opts of None \<Rightarrow> 50 | Some b \<Rightarrow> b)"
  shows "\<exists>x1 w1 x2 w2.
           syncSheetsToSupabase env opts w = Some (x1, w1) \<and>
           syncSheetsToSupabase env opts w1 = Some (x2, w2) \<and>
           map (map forgetLastSync) (newPayloads w w1) = map (map forgetLastSync) (newPayloads w1 w2) \<and>
           distinct (map rowKey (leadsTable w2)) \<and>
           map rowKey (leadsTable w2) = map rowKey (leadsTable w1) \<and>
           (\<forall>p\<in>set (newPayloads w1 w2). \<forall>l\<in>set p.
              length (filter (\<lambda>t. rowKey t = rowKey l) (leadsTable w2)) = 1) \<and>
           (\<forall>p\<in>set (newPayloads w1 w2). \<forall>i<length p.
              rowKey (p ! i) \<notin> rowKey ` set (drop (Suc i) p) \<longrightarrow>
              (\<exists>t\<in>set (leadsTable w2). rowKey t = rowKey (p ! i) \<and> p ! i \<subseteq>\<^sub>m t)) \<and>
           (plainSheet name sh \<and> 0 < batch \<longrightarrow>
              (\<exists>r1 r2. x1 = Inr r1 \<and> x2 = Inr r2 \<and> success r1 \<and> success r2 \<and>
                 rowsProcessed r1 = length (cells sh) - 1 \<and> rowsProcessed r2 = length (cells sh) - 1) \<and>
              (\<exists>p1 p2. newPayloads w w1 = [p1] \<and> newPayloads w1 w2 = [p2] \<and>
                 length p1 = length (cells sh) - 1 \<and> length p2 = length (cells sh) - 1 \<and>
                 (\<forall>i<length (cells sh) - 1.
                    holdsRow (take 26 (hd (cells sh))) (take 26 (cells sh ! Suc i)) (i + 2) (p1 ! i) \<and>
                    holdsRow (take 26 (hd (cells sh))) (take 26 (cells sh ! Suc i)) (i + 2) (p2 ! i))) \<and>
              (\<forall>i<length (cells sh) - 1.
                 (\<exists>t\<in>set (leadsTable w2).
                    holdsRow (take 26 (hd (cells sh))) (take 26 (cells sh ! Suc i)) (i + 2) t) \<and>
                 length (filter (\<lambda>t. rowKey t = Some (JStr (StringOf (i + 2)))) (leadsTable w2)) = 1))"
proof -
  let ?H = "take 26 (hd (cells sh))"
  let ?Rs = "map (take 26) (tl (cells sh))"
  let ?n = "length (cells sh) - 1"
  have width: "\<forall>s e rs. valuesGet (sheets env) name s e = Inr (Some rs) \<longrightarrow> length rs \<le> e + 1 - s"
    using sheetSource_width [of sh name] by (simp add: assms(1))
  from fetchSheetData_returns [OF disjI2 [OF width], of batch] obtain res reqs where
    f: "\<And>v. fetchSheetData env name batch v = Some (res, v\<lparr>requests := requests v @ reqs\<rparr>)"
    by blast
  have plain: "res = Inr (pushRows ?H 2 ?Rs)" if "plainSheet name sh" "0 < batch"
    using fetchSheetData_plain [OF assms(1) that, of w] f [of w] by auto
  show ?thesis
  proof (cases res)
    case (Inl e)
    from pass_fetch_failed [OF f [unfolded Inl] assms(4,5)] obtain x1 w1 where
      1: "syncSheetsToSupabase env opts w = Some (x1, w1)"
         "upserts w1 = upserts w" "leadsTable w1 = leadsTable w" by blast
    from pass_fetch_failed [OF f [unfolded Inl] assms(4,5)] obtain x2 w2 where
      2: "syncSheetsToSupabase env opts w1 = Some (x2, w2)"
         "upserts w2 = upserts w1" "leadsTable w2 = leadsTable w1" by blast
    have notplain: "\<not> (plainSheet name sh \<and> 0 < batch)"
      using plain Inl by auto
    have "syncSheetsToSupabase env opts w = Some (x1, w1) \<and>
           syncSheetsToSupabase env opts w1 = Some (x2, w2) \<and>
           map (map forgetLastSync) (newPayloads w w1) = map (map forgetLastSync) (newPayloads w1 w2) \<and>
           distinct (map rowKey (leadsTable w2)) \<and>
           map rowKey (leadsTable w2) = map rowKey (leadsTable w1) \<and>
           (\<forall>p\<in>set (newPayloads w1 w2). \<forall>l\<in>set p.
              length (filter (\<lambda>t. rowKey t = rowKey l) (leadsTable w2)) = 1) \<and>
           (\<forall>p\<in>set (newPayloads w1 w2). \<forall>i<length p.
              rowKey (p ! i) \<notin> rowKey ` set (drop (Suc i) p) \<longrightarrow>
              (\<exists>t\<in>set (leadsTable w2). rowKey t = rowKey (p ! i) \<and> p ! i \<subseteq>\<^sub>m t))"
      using 1 2 assms(3) by (simp add: newPayloads_def)
    with notplain show ?thesis by blast
  next
    case (Inr data)
    let ?wa = "\<lambda>v. v\<lparr>ticks := Suc (ticks v)\<rparr>\<lparr>requests := requests (v\<lparr>ticks := Suc (ticks v)\<rparr>) @ reqs\<rparr>"
    let ?p = "\<lambda>v. map own (fst (mapLeads env data (?wa v)))"
    from pass_with_keyed_store [OF f [unfolded Inr] assms(4,5,2)] obtain x1 w1 where
      1: "syncSheetsToSupabase env opts w = Some (x1, w1)"
         "upserts w1 = upserts w @ [?p w]"
         "leadsTable w1 = foldl (\<lambda>t r. upsertRow r t) (leadsTable w) (?p w)"
      and r1: "\<exists>s e. x1 = Inr (SyncOk s e (length data))" by blast
    from pass_with_keyed_store [OF f [unfolded Inr] assms(4,5,2)] obtain x2 w2 where
      2: "syncSheetsToSupabase env opts w1 = Some (x2, w2)"
         "upserts w2 = upserts w1 @ [?p w1]"
         "leadsTable w2 = foldl (\<lambda>t r. upsertRow r t) (leadsTable w1) (?p w1)"
      and r2: "\<exists>s e. x2 = Inr (SyncOk s e (length data))" by blast
    have same: "map forgetLastSync (?p w) = map forgetLastSync (?p w1)"
      by (rule payload_forget)
    have keys: "map rowKey (?p w1) = map rowKey (?p w)"
      by (rule payload_keys_eq)
    have d1: "distinct (map rowKey (leadsTable w1))"
      unfolding 1(3) using assms(3) by (rule distinct_upsert)
    have "set (map rowKey (?p w1)) \<subseteq> rowKey ` set (leadsTable w1)"
      unfolding keys unfolding 1(3) keys_upsert_cover by auto
    then have known: "rowKey ` set (?p w1) \<subseteq> rowKey ` set (leadsTable w1)"
      by (simp only: set_map)
    have k2: "map rowKey (leadsTable w2) = map rowKey (leadsTable w1)"
      unfolding 2(3) using known by (rule keys_upsert_known)
    have d2: "distinct (map rowKey (leadsTable w2))"
      unfolding k2 by (rule d1)
    have one: "length (filter (\<lambda>t. rowKey t = rowKey l) (leadsTable w2)) = 1"
      if "l \<in> set (?p w1)" for l
    proof -
      from that known have "rowKey l \<in> set (map rowKey (leadsTable w1))" by auto
      then have "rowKey l \<in> set (map rowKey (leadsTable w2))" unfolding k2 .
      with d2 show ?thesis by (rule one_row_per_key)
    qed
    have stored: "\<exists>t\<in>set (leadsTable w2). rowKey t = rowKey (?p w1 ! i) \<and> ?p w1 ! i \<subseteq>\<^sub>m t"
      if "i < length (?p w1)" "rowKey (?p w1 ! i) \<notin> rowKey ` set (drop (Suc i) (?p w1))" for i
      unfolding 2(3) using that by (rule rows_stored)
    have n1: "newPayloads w w1 = [?p w]" and n2: "newPayloads w1 w2 = [?p w1]"
      by (simp_all add: newPayloads_def 1(2) 2(2))
    have mirror: "(\<exists>r1 r2. x1 = Inr r1 \<and> x2 = Inr r2 \<and> success r1 \<and> success r2 \<and>
                 rowsProcessed r1 = ?n \<and> rowsProcessed r2 = ?n) \<and>
              (\<exists>p1 p2. newPayloads w w1 = [p1] \<and> newPayloads w1 w2 = [p2] \<and>
                 length p1 = ?n \<and> length p2 = ?n \<and>
                 (\<forall>i<?n.
                    holdsRow ?H (take 26 (cells sh ! Suc i)) (i + 2) (p1 ! i) \<and>
                    holdsRow ?H (take 26 (cells sh ! Suc i)) (i + 2) (p2 ! i))) \<and>
              (\<forall>i<?n.
                 (\<exists>t\<in>set (leadsTable w2). holdsRow ?H (take 26 (cells sh ! Suc i)) (i + 2) t) \<and>
                 length (filter (\<lambda>t. rowKey t = Some (JStr (StringOf (i + 2)))) (leadsTable w2)) = 1)"
      if pl: "plainSheet name sh" "0 < batch"
    proof -
      from plain [OF pl] Inr have data: "data = pushRows ?H 2 ?Rs" by simp
      have len: "length data = ?n" by (simp add: data pushRows_def)
      have lenRs: "length ?Rs = ?n" by simp
      from pl(1) have h1: "''sheet_row_id'' \<notin> normalizeHeader ` set ?H"
        and h2: "''__proto__'' \<notin> normalizeHeader ` set ?H" by (simp_all add: plainSheet_def)
      have row: "?Rs ! i = take 26 (cells sh ! Suc i)" if "i < ?n" for i
        using that by (simp add: nth_tl)
      have holds: "holdsRow ?H (take 26 (cells sh ! Suc i)) (i + 2) (?p v ! i)" if "i < ?n" for i v
        using payload_holdsRow [OF h1 h2, of i ?Rs env "?wa v"] that row [OF that]
        by (simp add: data)
      have lp: "length (?p v) = ?n" for v unfolding payload_length len ..
      have numbered: "\<forall>i<length (?p w1). rowKey (?p w1 ! i) = Some (JStr (StringOf (i + 2)))"
        using holds [THEN holdsRow_key] lp by simp
      have table: "(\<exists>t\<in>set (leadsTable w2). holdsRow ?H (take 26 (cells sh ! Suc i)) (i + 2) t) \<and>
                 length (filter (\<lambda>t. rowKey t = Some (JStr (StringOf (i + 2)))) (leadsTable w2)) = 1"
        if i: "i < ?n" for i
      proof -
        from i lp have i': "i < length (?p w1)" by simp
        from stored [OF i' numbered_keys_later [OF numbered i']] obtain t where
          t: "t \<in> set (leadsTable w2)" "?p w1 ! i \<subseteq>\<^sub>m t" by blast
        from holdsRow_mono [OF holds [OF i] t(2)] t(1)
        have a: "\<exists>t\<in>set (leadsTable w2). holdsRow ?H (take 26 (cells sh ! Suc i)) (i + 2) t" by blast
        from i' have "?p w1 ! i \<in> set (?p w1)" by (rule nth_mem)
        from one [OF this] numbered i'
        have "length (filter (\<lambda>t. rowKey t = Some (JStr (StringOf (i + 2)))) (leadsTable w2)) = 1"
          by simp
        with a show ?thesis by blast
      qed
      from r1 r2 have res: "\<exists>r1 r2. x1 = Inr r1 \<and> x2 = Inr r2 \<and> success r1 \<and> success r2 \<and>
                 rowsProcessed r1 = ?n \<and> rowsProcessed r2 = ?n"
        unfolding len by auto
      have pay: "\<exists>p1 p2. newPayloads w w1 = [p1] \<and> newPayloads w1 w2 = [p2] \<and>
                 length p1 = ?n \<and> length p2 = ?n \<and>
                 (\<forall>i<?n.
                    holdsRow ?H (take 26 (cells sh ! Suc i)) (i + 2) (p1 ! i) \<and>
                    holdsRow ?H (take 26 (cells sh ! Suc i)) (i + 2) (p2 ! i))"
        using n1 n2 lp holds by blast
      from res pay table show ?thesis by blast
    qed
    have "syncSheetsToSupabase env opts w = Some (x1, w1) \<and>
           syncSheetsToSupabase env opts w1 = Some (x2, w2) \<and>
           map (map forgetLastSync) (newPayloads w w1) = map (map forgetLastSync) (newPayloads w1 w2) \<and>
           distinct (map rowKey (leadsTable w2)) \<and>
           map rowKey (leadsTable w2) = map rowKey (leadsTable w1) \<and>
           (\<forall>p\<in>set (newPayloads w1 w2). \<forall>l\<in>set p.
              length (filter (\<lambda>t. rowKey t = rowKey l) (leadsTable w2)) = 1) \<and>
           (\<forall>p\<in>set (newPayloads w1 w2). \<forall>i<length p.
              rowKey (p ! i) \<notin> rowKey ` set (drop (Suc i) p) \<longrightarrow>
              (\<exists>t\<in>set (leadsTable w2). rowKey t = rowKey (p ! i) \<and> p ! i \<subseteq>\<^sub>m t))"
    proof (intro conjI ballI allI impI)
      show "syncSheetsToSupabase env opts w = Some (x1, w1)" by (rule 1(1))
      show "syncSheetsToSupabase env opts w1 = Some (x2, w2)" by (rule 2(1))
      show "map (map forgetLastSync) (newPayloads w w1) = map (map forgetLastSync) (newPayloads w1 w2)"
        unfolding n1 n2 using same by simp
      show "distinct (map rowKey (leadsTable w2))" by (rule d2)
      show "map rowKey (leadsTable w2) = map rowKey (leadsTable w1)" by (rule k2)
    next
      fix p l assume "p \<in> set (newPayloads w1 w2)" "l \<in> set p"
      then have "l \<in> set (?p w1)" unfolding n2 by simp
      then show "length (filter (\<lambda>t. rowKey t = rowKey l) (leadsTable w2)) = 1" by (rule one)
    next
      fix p i assume "p \<in> set (newPayloads w1 w2)" "i < length p"
        "rowKey (p ! i) \<notin> rowKey ` set (drop (Suc i) p)"
      then have "p = ?p w1" "i < length (?p w1)"
        "rowKey (?p w1 ! i) \<notin> rowKey ` set (drop (Suc i) (?p w1))" unfolding n2 by simp_all
      with stored show "\<exists>t\<in>set (leadsTable w2). rowKey t = rowKey (p ! i) \<and> p ! i \<subseteq>\<^sub>m t"
        by blast
    qed
    with mirror show ?thesis by blast
  qed
qed

theorem two_passes_idempotent_by_id_witness:
  "sheets (stubEnv paddedSheet) = sheetSource paddedSheet \<and>
   upsert (stubEnv paddedSheet) = keyedUpsert \<and>
   distinct (map rowKey (leadsTable emptyWorld)) \<and>
   plainSheet ''Sheet1'' paddedSheet \<and>
   (\<exists>x1 w1 x2 w2.
      syncSheetsToSupabase (stubEnv paddedSheet)
        \<lparr>sheetName = None, batchSize = Some 2, forceFullSync = None, onError = None\<rparr> emptyWorld = Some (x1, w1) \<and>
      syncSheetsToSupabase (stubEnv paddedSheet)
        \<lparr>sheetName = None, batchSize = Some 2, forceFullSync = None, onError = None\<rparr> w1 = Some (x2, w2) \<and>
      map (map forgetLastSync) (newPayloads emptyWorld w1) = map (map forgetLastSync) (newPayloads w1 w2) \<and>
      distinct (map rowKey (leadsTable w2)) \<and>
      map rowKey (leadsTable w2) = map rowKey (leadsTable w1) \<and>
      (\<exists>r1 r2. x1 = Inr r1 \<and> x2 = Inr r2 \<and> success r1 \<and> success r2 \<and>
         rowsProcessed r1 = 2 \<and> rowsProcessed r2 = 2) \<and>
      (\<exists>p1 p2. newPayloads emptyWorld w1 = [p1] \<and> newPayloads w1 w2 = [p2] \<and>
         length p1 = 2 \<and> length p2 = 2 \<and>
         holdsRow [''Name'', ''Email''] [''Alice'', ''a@x.com''] 2 (p1 ! 0) \<and>
         holdsRow [''Name'', ''Email''] [''Alice'', ''a@x.com''] 2 (p2 ! 0) \<and>
         holdsRow [''Name'', ''Email''] [''Bob'', ''b@x.com''] 3 (p1 ! 1) \<and>
         holdsRow [''Name'', ''Email''] [''Bob'', ''b@x.com''] 3 (p2 ! 1)) \<and>
      (\<exists>t\<in>set (leadsTable w2). holdsRow [''Name'', ''Email''] [''Alice'', ''a@x.com''] 2 t) \<and>
      (\<exists>t\<in>set (leadsTable w2). holdsRow [''Name'', ''Email''] [''Bob'', ''b@x.com''] 3 t) \<and>
      length (filter (\<lambda>t. rowKey t = Some (JStr (StringOf 2))) (leadsTable w2)) = 1 \<and>
      length (filter (\<lambda>t. rowKey t = Some (JStr (StringOf 3))) (leadsTable w2)) = 1)"
proof -
  let ?opts = "\<lparr>sheetName = None, batchSize = Some 2, forceFullSync = None, onError = None\<rparr>"
  have a: "sheets (stubEnv paddedSheet) = sheetSource paddedSheet"
    and b: "upsert (stubEnv paddedSheet) = keyedUpsert" by (simp_all add: stubEnv_def)
  have c: "distinct (map rowKey (leadsTable emptyWorld))" by (simp add: emptyWorld_def)
  have n: "''Sheet1'' = (case sheetName ?opts of None \<Rightarrow> ''Sheet1'' | Some n \<Rightarrow> n)" by simp
  have bt: "2 = (case batchSize ?opts of None \<Rightarrow> 50 | Some b \<Rightarrow> b)" by simp
  have pl: "plainSheet ''Sheet1'' paddedSheet" by code_simp
  have cs: "length (cells paddedSheet) - 1 = 2" "take 26 (hd (cells paddedSheet)) = [''Name'', ''Email'']"
    "take 26 (cells paddedSheet ! Suc 0) = [''Alice'', ''a@x.com'']"
    "take 26 (cells paddedSheet ! Suc 1) = [''Bob'', ''b@x.com'']"
    by (simp_all add: paddedSheet_def exampleSheet_def)
  from two_passes_idempotent_by_id [OF a b c n bt] obtain x1 w1 x2 w2 where
    run: "syncSheetsToSupabase (stubEnv paddedSheet) ?opts emptyWorld = Some (x1, w1)"
         "syncSheetsToSupabase (stubEnv paddedSheet) ?opts w1 = Some (x2, w2)"
         "map (map forgetLastSync) (newPayloads emptyWorld w1) = map (map forgetLastSync) (newPayloads w1 w2)"
         "distinct (map rowKey (leadsTable w2))"
         "map rowKey (leadsTable w2) = map rowKey (leadsTable w1)"
    and m: "plainSheet ''Sheet1'' paddedSheet \<and> (0::nat) < 2 \<longrightarrow>
              (\<exists>r1 r2. x1 = Inr r1 \<and> x2 = Inr r2 \<and> success r1 \<and> success r2 \<and>
                 rowsProcessed r1 = length (cells paddedSheet) - 1 \<and>
                 rowsProcessed r2 = length (cells paddedSheet) - 1) \<and>
              (\<exists>p1 p2. newPayloads emptyWorld w1 = [p1] \<and> newPayloads w1 w2 = [p2] \<and>
                 length p1 = length (cells paddedSheet) - 1 \<and> length p2 = length (cells paddedSheet) - 1 \<and>
                 (\<forall>i<length (cells paddedSheet) - 1.
                    holdsRow (take 26 (hd (cells paddedSheet))) (take 26 (cells paddedSheet ! Suc i)) (i + 2) (p1 ! i) \<and>
                    holdsRow (take 26 (hd (cells paddedSheet))) (take 26 (cells paddedSheet ! Suc i)) (i + 2) (p2 ! i))) \<and>
              (\<forall>i<length (cells paddedSheet) - 1.
                 (\<exists>t\<in>set (leadsTable w2).
                    holdsRow (take 26 (hd (cells paddedSheet))) (take 26 (cells paddedSheet ! Suc i)) (i + 2) t) \<and>
                 length (filter (\<lambda>t. rowKey t = Some (JStr (StringOf (i + 2)))) (leadsTable w2)) = 1)"
    by blast
  from m pl have res: "\<exists>r1 r2. x1 = Inr r1 \<and> x2 = Inr r2 \<and> success r1 \<and> success r2 \<and>
         rowsProcessed r1 = 2 \<and> rowsProcessed r2 = 2"
    and pay: "\<exists>p1 p2. newPayloads emptyWorld w1 = [p1] \<and> newPayloads w1 w2 = [p2] \<and>
                 length p1 = 2 \<and> length p2 = 2 \<and>
                 (\<forall>i<2. holdsRow [''Name'', ''Email''] (take 26 (cells paddedSheet ! Suc i)) (i + 2) (p1 ! i) \<and>
                        holdsRow [''Name'', ''Email''] (take 26 (cells paddedSheet ! Suc i)) (i + 2) (p2 ! i))"
    and tab: "\<forall>i<2. (\<exists>t\<in>set (leadsTable w2).
                    holdsRow [''Name'', ''Email''] (take 26 (cells paddedSheet ! Suc i)) (i + 2) t) \<and>
                 length (filter (\<lambda>t. rowKey t = Some (JStr (StringOf (i + 2)))) (leadsTable w2)) = 1"
    unfolding cs(1,2) by simp_all
  from pay obtain p1 p2 where p: "newPayloads emptyWorld w1 = [p1]" "newPayloads w1 w2 = [p2]"
      "length p1 = 2" "length p2 = 2"
    and h: "\<forall>i<2. holdsRow [''Name'', ''Email''] (take 26 (cells paddedSheet ! Suc i)) (i + 2) (p1 ! i) \<and>
                        holdsRow [''Name'', ''Email''] (take 26 (cells paddedSheet ! Suc i)) (i + 2) (p2 ! i)"
    by blast
  have two: "(0::nat) < 2" "(1::nat) < 2" by simp_all
  from h [rule_format, OF two(1)] h [rule_format, OF two(2)]
  have h': "holdsRow [''Name'', ''Email''] [''Alice'', ''a@x.com''] 2 (p1 ! 0)"
         "holdsRow [''Name'', ''Email''] [''Alice'', ''a@x.com''] 2 (p2 ! 0)"
         "holdsRow [''Name'', ''Email''] [''Bob'', ''b@x.com''] 3 (p1 ! 1)"
         "holdsRow [''Name'', ''Email''] [''Bob'', ''b@x.com''] 3 (p2 ! 1)"
    unfolding cs(3,4) by (simp_all add: numeral_3_eq_3 numeral_2_eq_2)
  from tab [rule_format, OF two(1)] tab [rule_format, OF two(2)]
  have t': "\<exists>t\<in>set (leadsTable w2). holdsRow [''Name'', ''Email''] [''Alice'', ''a@x.com''] 2 t"
       "\<exists>t\<in>set (leadsTable w2). holdsRow [''Name'', ''Email''] [''Bob'', ''b@x.com''] 3 t"
       "length (filter (\<lambda>t. rowKey t = Some (JStr (StringOf 2))) (leadsTable w2)) = 1"
       "length (filter (\<lambda>t. rowKey t = Some (JStr (StringOf 3))) (leadsTable w2)) = 1"
    unfolding cs(3,4) by (simp_all add: numeral_3_eq_3 numeral_2_eq_2)
  from p h' have pay': "\<exists>p1 p2. newPayloads emptyWorld w1 = [p1] \<and> newPayloads w1 w2 = [p2] \<and>
         length p1 = 2 \<and> length p2 = 2 \<and>
         holdsRow [''Name'', ''Email''] [''Alice'', ''a@x.com''] 2 (p1 ! 0) \<and>
         holdsRow [''Name'', ''Email''] [''Alice'', ''a@x.com''] 2 (p2 ! 0) \<and>
         holdsRow [''Name'', ''Email''] [''Bob'', ''b@x.com''] 3 (p1 ! 1) \<and>
         holdsRow [''Name'', ''Email''] [''Bob'', ''b@x.com''] 3 (p2 ! 1)" by blast
  from a b c pl run res pay' t' show ?thesis by blast
qed

end
